theory Spec2Isabelle
  imports Complex_Main
begin

section \<open>Numbers and errors\<close>

text \<open>
  The pricing models compute on floating-point numbers; the embedding of the two
  pricers and of the bracketed solver is over the reals. A Python exception is a value
  of \<open>py_error\<close>, and a fallible computation returns \<open>py_error + 'a\<close>. Division of two
  Python scalars raises \<open>ZeroDivisionError\<close> on a zero divisor; numpy's functions and
  the arithmetic on their results never raise (they yield \<open>inf\<close> or \<open>nan\<close> under a
  suppressed warning), so they are total here. Where numpy would yield a non-finite
  value (logarithm or square root of a non-positive number, division by a numpy zero)
  the real-valued model has HOL's value of the total function, which says nothing about
  the float; the theorems below that speak about values keep to contracts with
  positive \<open>S\<close>, \<open>K\<close>, \<open>T\<close> and \<open>sigma\<close>. The Newton-Raphson loop of the
  implied-volatility solver is the exception: its control flow depends on underflow,
  overflow and \<open>nan\<close>, and it is modelled over an abstract type of float values.
\<close>

datatype py_error = ZeroDivisionError | ValueError | IndexError | RuntimeError | OverflowError

subsection \<open>The standard normal distribution (scipy.stats.norm)\<close>

text \<open>
  \<open>norm.pdf\<close> is the density \<open>exp (- x\<^sup>2 / 2) / sqrt (2 pi)\<close>. \<open>norm.cdf\<close> is its
  distribution function, given here by its Maclaurin series
  \<open>1/2 + (\<Sum>k. (-1)^k x^(2k+1) / (2^k k! (2k+1))) / sqrt (2 pi)\<close>; that this is the
  antiderivative of the density with value \<open>1/2\<close> at \<open>0\<close>, increasing from \<open>0\<close> at
  minus infinity to \<open>1\<close> at infinity, is proved below (\<open>DERIV_norm_cdf\<close>,
  \<open>norm_cdf_zero\<close>, \<open>norm_cdf_at_bot\<close>, \<open>norm_cdf_at_top\<close>).
\<close>

definition norm_pdf :: "real \<Rightarrow> real" where
  "norm_pdf x = exp (- (x\<^sup>2) / 2) / sqrt (2 * pi)"

definition norm_cdf_term :: "real \<Rightarrow> nat \<Rightarrow> real" where
  "norm_cdf_term x k = (- 1) ^ k * x ^ (2 * k + 1) / (2 ^ k * fact k * real (2 * k + 1))"

definition norm_cdf :: "real \<Rightarrow> real" where
  "norm_cdf x = 1 / 2 + (\<Sum>k. norm_cdf_term x k) / sqrt (2 * pi)"

text \<open>
  The same series as a power series in \<open>x\<close>; only the proofs use it.
\<close>

definition norm_cdf_coeff :: "nat \<Rightarrow> real" where
  "norm_cdf_coeff n =
     (if even n then 0
      else (- 1) ^ ((n - 1) div 2) / (2 ^ ((n - 1) div 2) * fact ((n - 1) div 2) * real n))"

subsection \<open>Auxiliary functions of the analysis\<close>

text \<open>
  Only the proofs about \<open>norm_cdf\<close> use these: \<open>cos_int m\<close> is the antiderivative of
  \<open>cos ^ m\<close> that vanishes at \<open>0\<close>, \<open>wallis m\<close> its value at \<open>pi / 2\<close>, and
  \<open>gauss_int\<close> the antiderivative of \<open>exp (- x\<^sup>2 / 2)\<close> that vanishes at \<open>0\<close>.
\<close>

fun cos_int :: "nat \<Rightarrow> real \<Rightarrow> real" where
  "cos_int 0 x = x"
| "cos_int (Suc 0) x = sin x"
| "cos_int (Suc (Suc m)) x =
     (cos x ^ Suc m * sin x + real (Suc m) * cos_int m x) / real (Suc (Suc m))"

definition wallis :: "nat \<Rightarrow> real" where
  "wallis m = cos_int m (pi / 2)"

definition gauss_int :: "real \<Rightarrow> real" where
  "gauss_int x = sqrt (2 * pi) * (norm_cdf x - 1 / 2)"

section \<open>models/BlackScholes.py\<close>

record BlackScholes =
  bs_S :: real
  bs_K :: real
  bs_T :: real
  bs_r :: real
  bs_sigma :: real
  bs_q :: real
  bs_d1 :: real
  bs_d2 :: real

text \<open>
  \<open>__init__\<close>: stores the six parameters as they are and computes \<open>d1\<close>, \<open>d2\<close>. The only
  operation that can raise is the scalar division \<open>S/K\<close>.
\<close>

definition BlackScholes_init ::
  "real \<Rightarrow> real \<Rightarrow> real \<Rightarrow> real \<Rightarrow> real \<Rightarrow> real \<Rightarrow> py_error + BlackScholes" where
  "BlackScholes_init S K T r sigma q =
     (if K = 0 then Inl ZeroDivisionError
      else
        let d1 = (ln (S / K) + (r - q + 0.5 * sigma\<^sup>2) * T) / (sigma * sqrt T);
            d2 = d1 - sigma * sqrt T
        in Inr \<lparr>bs_S = S, bs_K = K, bs_T = T, bs_r = r, bs_sigma = sigma, bs_q = q,
                bs_d1 = d1, bs_d2 = d2\<rparr>)"

definition call_price :: "BlackScholes \<Rightarrow> real" where
  "call_price bs =
     bs_S bs * exp (- bs_q bs * bs_T bs) * norm_cdf (bs_d1 bs) -
     bs_K bs * exp (- bs_r bs * bs_T bs) * norm_cdf (bs_d2 bs)"

definition put_price :: "BlackScholes \<Rightarrow> real" where
  "put_price bs =
     bs_K bs * exp (- bs_r bs * bs_T bs) * norm_cdf (- bs_d2 bs) -
     bs_S bs * exp (- bs_q bs * bs_T bs) * norm_cdf (- bs_d1 bs)"

definition vega :: "BlackScholes \<Rightarrow> real" where
  "vega bs =
     bs_S bs * exp (- bs_q bs * bs_T bs) * norm_pdf (bs_d1 bs) * sqrt (bs_T bs) / 100"

subsection \<open>The formulas of the specification\<close>

definition spec_d1 :: "real \<Rightarrow> real \<Rightarrow> real \<Rightarrow> real \<Rightarrow> real \<Rightarrow> real \<Rightarrow> real" where
  "spec_d1 S K T r sigma q = (ln (S / K) + (r - q + sigma\<^sup>2 / 2) * T) / (sigma * sqrt T)"

definition spec_d2 :: "real \<Rightarrow> real \<Rightarrow> real \<Rightarrow> real \<Rightarrow> real \<Rightarrow> real \<Rightarrow> real" where
  "spec_d2 S K T r sigma q = spec_d1 S K T r sigma q - sigma * sqrt T"

definition spec_call :: "real \<Rightarrow> real \<Rightarrow> real \<Rightarrow> real \<Rightarrow> real \<Rightarrow> real \<Rightarrow> real" where
  "spec_call S K T r sigma q =
     S * exp (- (q * T)) * norm_cdf (spec_d1 S K T r sigma q) -
     K * exp (- (r * T)) * norm_cdf (spec_d2 S K T r sigma q)"

definition spec_put :: "real \<Rightarrow> real \<Rightarrow> real \<Rightarrow> real \<Rightarrow> real \<Rightarrow> real \<Rightarrow> real" where
  "spec_put S K T r sigma q =
     K * exp (- (r * T)) * norm_cdf (- spec_d2 S K T r sigma q) -
     S * exp (- (q * T)) * norm_cdf (- spec_d1 S K T r sigma q)"

section \<open>models/BinomialTree.py\<close>

record BinomialTree =
  bt_S :: real
  bt_K :: real
  bt_T :: real
  bt_r :: real
  bt_sigma :: real
  bt_n :: int
  bt_q :: real
  bt_option_type :: string
  bt_exercise_type :: string
  bt_dt :: real
  bt_u :: real
  bt_d :: real
  bt_p :: real
  bt_discount :: real

text \<open>
  \<open>__init__\<close>: \<open>dt = T / n\<close> divides two Python scalars and raises on \<open>n = 0\<close>; the
  other quotients have a numpy number as divisor. Nothing checks \<open>p\<close>.
\<close>

definition BinomialTree_init ::
  "real \<Rightarrow> real \<Rightarrow> real \<Rightarrow> real \<Rightarrow> real \<Rightarrow> int \<Rightarrow> real \<Rightarrow> string \<Rightarrow> string \<Rightarrow>
     py_error + BinomialTree" where
  "BinomialTree_init S K T r sigma n q option_type exercise_type =
     (if n = 0 then Inl ZeroDivisionError
      else
        let dt = T / real_of_int n;
            u = exp (sigma * sqrt dt);
            d = 1 / u;
            p = (exp ((r - q) * dt) - d) / (u - d);
            discount = exp (- r * dt)
        in Inr \<lparr>bt_S = S, bt_K = K, bt_T = T, bt_r = r, bt_sigma = sigma, bt_n = n, bt_q = q,
                bt_option_type = option_type, bt_exercise_type = exercise_type,
                bt_dt = dt, bt_u = u, bt_d = d, bt_p = p, bt_discount = discount\<rparr>)"

text \<open>The payoff at asset price \<open>s\<close>: \<open>max(0, s - K)\<close> for a call, \<open>max(0, K - s)\<close> otherwise.\<close>

definition payoff :: "BinomialTree \<Rightarrow> real \<Rightarrow> real" where
  "payoff bt s =
     (if bt_option_type bt = ''call'' then max 0 (s - bt_K bt) else max 0 (bt_K bt - s))"

text \<open>The asset price after \<open>m\<close> up-moves and \<open>i\<close> down-moves.\<close>

definition asset_price :: "BinomialTree \<Rightarrow> nat \<Rightarrow> nat \<Rightarrow> real" where
  "asset_price bt m i = bt_S bt * bt_u bt ^ m * bt_d bt ^ i"

text \<open>
  The body of the inner loop of \<open>price\<close> at step \<open>j\<close>, node \<open>i\<close>: the working array
  \<open>V\<close> is updated in place at index \<open>i\<close>, reading \<open>V[i]\<close> and \<open>V[i + 1]\<close>.
\<close>

definition node_update :: "BinomialTree \<Rightarrow> nat \<Rightarrow> real list \<Rightarrow> nat \<Rightarrow> real list" where
  "node_update bt j V i =
     (let V1 = V[i := bt_discount bt * (bt_p bt * V ! i + (1 - bt_p bt) * V ! (i + 1))]
      in if bt_exercise_type bt = ''american''
         then
           let S_now = asset_price bt (j - i) i;
               exercise_value = payoff bt S_now
           in V1[i := max (V1 ! i) exercise_value]
         else V1)"

text \<open>\<open>for i in range(j + 1)\<close>.\<close>

definition backward_step :: "BinomialTree \<Rightarrow> real list \<Rightarrow> nat \<Rightarrow> real list" where
  "backward_step bt V j = fold (\<lambda>i V. node_update bt j V i) [0..<j + 1] V"

text \<open>\<open>for j in range(n - 1, -1, -1)\<close>.\<close>

definition backward_induction :: "BinomialTree \<Rightarrow> real list \<Rightarrow> real list" where
  "backward_induction bt V = fold (\<lambda>j V. backward_step bt V j) (rev [0..<nat (bt_n bt)]) V"

text \<open>
  \<open>price\<close>: \<open>np.zeros(n + 1)\<close> raises \<open>ValueError\<close> on a negative length, and the final
  \<open>V[0]\<close> raises \<open>IndexError\<close> on an empty array. Inside the loops every index is below
  \<open>n + 1\<close> (lemma \<open>length_backward_induction\<close> and the loop bounds).
\<close>

definition terminal_prices :: "BinomialTree \<Rightarrow> real list" where
  "terminal_prices bt =
     map (\<lambda>i. asset_price bt (nat (bt_n bt - int i)) i) [0..<nat (bt_n bt + 1)]"

definition price :: "BinomialTree \<Rightarrow> py_error + real" where
  "price bt =
     (if bt_n bt + 1 < 0 then Inl ValueError
      else
        let S_T = terminal_prices bt;
            V = map (payoff bt) S_T;
            V' = backward_induction bt V
        in if V' = [] then Inl IndexError else Inr (V' ! 0))"

text \<open>\<open>BinomialTree(S, K, T, r, sigma, n, q, option_type, exercise_type).price()\<close>.\<close>

definition lattice_price ::
  "real \<Rightarrow> real \<Rightarrow> real \<Rightarrow> real \<Rightarrow> real \<Rightarrow> int \<Rightarrow> real \<Rightarrow> string \<Rightarrow> string \<Rightarrow> py_error + real" where
  "lattice_price S K T r sigma n q option_type exercise_type =
     (case BinomialTree_init S K T r sigma n q option_type exercise_type of
        Inl e \<Rightarrow> Inl e
      | Inr bt \<Rightarrow> price bt)"

section \<open>models/ImpliedVolatility.py\<close>

record ImpliedVolatility =
  iv_S :: real
  iv_K :: real
  iv_T :: real
  iv_r :: real
  iv_market_price :: real
  iv_option_type :: string
  iv_q :: real

text \<open>
  The pricer evaluation both solvers make at a volatility \<open>sigma\<close>: construct the
  analytic pricer and take the call or the put price.
\<close>

definition theoretical_price :: "ImpliedVolatility \<Rightarrow> BlackScholes \<Rightarrow> real" where
  "theoretical_price iv bs =
     (if iv_option_type iv = ''call'' then call_price bs else put_price bs)"

definition objective :: "ImpliedVolatility \<Rightarrow> real \<Rightarrow> py_error + real" where
  "objective iv sigma =
     (case BlackScholes_init (iv_S iv) (iv_K iv) (iv_T iv) (iv_r iv) sigma (iv_q iv) of
        Inl e \<Rightarrow> Inl e
      | Inr bs \<Rightarrow> Inr (theoretical_price iv bs - iv_market_price iv))"

text \<open>
  The intrinsic value of the specification: the value of exercising now.
\<close>

definition spec_intrinsic_value :: "ImpliedVolatility \<Rightarrow> real" where
  "spec_intrinsic_value iv =
     (if iv_option_type iv = ''call'' then max 0 (iv_S iv - iv_K iv)
      else max 0 (iv_K iv - iv_S iv))"

text \<open>
  \<open>scipy.optimize.brentq\<close> is a library routine. Its entry is modelled as the library
  has it: the function is evaluated at both ends (an exception of the callback
  propagates), an end where it vanishes is returned, and equal signs at the two ends
  raise \<open>ValueError\<close>. The iteration that follows on a bracketed root is the parameter
  \<open>solve\<close>.
\<close>

definition brentq ::
  "((real \<Rightarrow> py_error + real) \<Rightarrow> real \<Rightarrow> real \<Rightarrow> py_error + real) \<Rightarrow>
     (real \<Rightarrow> py_error + real) \<Rightarrow> real \<Rightarrow> real \<Rightarrow> py_error + real" where
  "brentq solve f a b =
     (case f a of
        Inl e \<Rightarrow> Inl e
      | Inr fpre \<Rightarrow>
          (case f b of
             Inl e \<Rightarrow> Inl e
           | Inr fcur \<Rightarrow>
               if fpre = 0 then Inr a
               else if fcur = 0 then Inr b
               else if (fpre < 0) = (fcur < 0) then Inl ValueError
               else solve f a b))"

text \<open>
  \<open>calculate_iv\<close>: \<open>except ValueError: return None\<close>; any other exception propagates.
  The result \<open>None\<close> is the solver's "no solution".
\<close>

definition calculate_iv ::
  "((real \<Rightarrow> py_error + real) \<Rightarrow> real \<Rightarrow> real \<Rightarrow> py_error + real) \<Rightarrow>
     ImpliedVolatility \<Rightarrow> py_error + real option" where
  "calculate_iv solve iv =
     (case brentq solve (objective iv) 0.001 5.0 of
        Inr x \<Rightarrow> Inr (Some x)
      | Inl ValueError \<Rightarrow> Inr None
      | Inl e \<Rightarrow> Inl e)"

subsection \<open>The Newton-Raphson solver\<close>

text \<open>
  What the loop of \<open>vega_newton\<close> does depends on what floating-point numbers do and
  the reals do not: the density \<open>norm.pdf(d1)\<close> underflows to exactly \<open>0.0\<close>, which
  takes the exit \<open>vega == 0\<close>; a Newton update overflows to \<open>inf\<close>, the pricer at
  \<open>inf\<close> yields \<open>nan\<close>, and \<open>nan <= 0\<close> is \<open>False\<close>. The loop is therefore modelled
  over an arbitrary type \<open>'f\<close> of float values. The operations that the loop applies to
  them are the fields of \<open>float_ops\<close>, and nothing is assumed of them; \<open>fl_lit\<close> gives
  the float of a literal of the source (\<open>100\<close>, \<open>0\<close> and \<open>0.001\<close>).
\<close>

record 'f float_ops =
  fl_lit :: "real \<Rightarrow> 'f"
  fl_sub :: "'f \<Rightarrow> 'f \<Rightarrow> 'f"
  fl_mul :: "'f \<Rightarrow> 'f \<Rightarrow> 'f"
  fl_div :: "'f \<Rightarrow> 'f \<Rightarrow> 'f"
  fl_abs :: "'f \<Rightarrow> 'f"
  fl_less :: "'f \<Rightarrow> 'f \<Rightarrow> bool"
  fl_le :: "'f \<Rightarrow> 'f \<Rightarrow> bool"
  fl_eq :: "'f \<Rightarrow> 'f \<Rightarrow> bool"

text \<open>
  The pricer evaluation of a pass (the constructor \<open>b.BlackScholes(...)\<close>, then
  \<open>call_price()\<close> or \<open>put_price()\<close>, then \<open>vega()\<close>) is the parameter \<open>pricer\<close>: at
  a volatility it gives the pair of \<open>price\<close> and \<open>bs.vega()\<close>, or the exception that the
  constructor raises (\<open>ZeroDivisionError\<close> at \<open>S / K\<close> for a zero \<open>K\<close>,
  \<open>OverflowError\<close> at \<open>sigma**2\<close> for a Python float too large to square). The rest
  of the pass is arithmetic on numpy floats and comparisons, which do not raise. One
  pass at the current \<open>sigma\<close> either returns (tolerance met), breaks (\<open>vega == 0\<close>) or
  goes on with the next \<open>sigma\<close>.
\<close>

datatype 'f pass_outcome = Return | Break | Continue 'f

text \<open>\<open>if sigma <= 0: sigma = 0.001\<close>\<close>

definition keep_positive :: "'f float_ops \<Rightarrow> 'f \<Rightarrow> 'f" where
  "keep_positive ops sigma =
     (if fl_le ops sigma (fl_lit ops 0) then fl_lit ops 0.001 else sigma)"

definition newton_pass ::
  "'f float_ops \<Rightarrow> ('f \<Rightarrow> py_error + 'f \<times> 'f) \<Rightarrow> 'f \<Rightarrow> 'f \<Rightarrow> 'f \<Rightarrow>
     py_error + 'f pass_outcome" where
  "newton_pass ops pricer market_price tolerance sigma =
     (case pricer sigma of
        Inl e \<Rightarrow> Inl e
      | Inr (price_sigma, bs_vega) \<Rightarrow>
          let vega100 = fl_mul ops bs_vega (fl_lit ops 100);
              price_diff = fl_sub ops price_sigma market_price
          in if fl_less ops (fl_abs ops price_diff) tolerance then Inr Return
             else if fl_eq ops vega100 (fl_lit ops 0) then Inr Break
             else Inr (Continue
                    (keep_positive ops (fl_sub ops sigma (fl_div ops price_diff vega100)))))"

text \<open>\<open>for i in range(max_iterations)\<close>, then \<open>return sigma\<close>.\<close>

fun newton_loop ::
  "'f float_ops \<Rightarrow> ('f \<Rightarrow> py_error + 'f \<times> 'f) \<Rightarrow> 'f \<Rightarrow> 'f \<Rightarrow> nat \<Rightarrow> 'f \<Rightarrow>
     py_error + 'f" where
  "newton_loop ops pricer market_price tolerance 0 sigma = Inr sigma"
| "newton_loop ops pricer market_price tolerance (Suc k) sigma =
     (case newton_pass ops pricer market_price tolerance sigma of
        Inl e \<Rightarrow> Inl e
      | Inr Return \<Rightarrow> Inr sigma
      | Inr Break \<Rightarrow> Inr sigma
      | Inr (Continue sigma') \<Rightarrow> newton_loop ops pricer market_price tolerance k sigma')"

definition vega_newton ::
  "'f float_ops \<Rightarrow> ('f \<Rightarrow> py_error + 'f \<times> 'f) \<Rightarrow> 'f \<Rightarrow> 'f \<Rightarrow> int \<Rightarrow> 'f \<Rightarrow>
     py_error + 'f" where
  "vega_newton ops pricer market_price sigma_initial max_iterations tolerance =
     newton_loop ops pricer market_price tolerance (nat max_iterations) sigma_initial"

text \<open>
  The run of the loop, observed: \<open>newton_evals\<close> lists the volatilities at which the
  passes evaluate the pricer, in order; \<open>newton_iterates\<close> lists the successive values
  of the variable \<open>sigma\<close>.
\<close>

fun newton_evals ::
  "'f float_ops \<Rightarrow> ('f \<Rightarrow> py_error + 'f \<times> 'f) \<Rightarrow> 'f \<Rightarrow> 'f \<Rightarrow> nat \<Rightarrow> 'f \<Rightarrow> 'f list" where
  "newton_evals ops pricer market_price tolerance 0 sigma = []"
| "newton_evals ops pricer market_price tolerance (Suc k) sigma =
     sigma # (case newton_pass ops pricer market_price tolerance sigma of
                Inr (Continue sigma') \<Rightarrow> newton_evals ops pricer market_price tolerance k sigma'
              | _ \<Rightarrow> [])"

fun newton_iterates ::
  "'f float_ops \<Rightarrow> ('f \<Rightarrow> py_error + 'f \<times> 'f) \<Rightarrow> 'f \<Rightarrow> 'f \<Rightarrow> nat \<Rightarrow> 'f \<Rightarrow> 'f list" where
  "newton_iterates ops pricer market_price tolerance 0 sigma = [sigma]"
| "newton_iterates ops pricer market_price tolerance (Suc k) sigma =
     sigma # (case newton_pass ops pricer market_price tolerance sigma of
                Inr (Continue sigma') \<Rightarrow> newton_iterates ops pricer market_price tolerance k sigma'
              | _ \<Rightarrow> [])"

text \<open>
  Exact arithmetic is one instance of the float operations, and the analytic pricer
  over the reals one instance of the pricer evaluation.
\<close>

definition exact_ops :: "real float_ops" where
  "exact_ops =
     \<lparr>fl_lit = (\<lambda>x. x), fl_sub = (\<lambda>a b. a - b), fl_mul = (\<lambda>a b. a * b),
      fl_div = (\<lambda>a b. a / b), fl_abs = (\<lambda>a. \<bar>a\<bar>), fl_less = (\<lambda>a b. a < b),
      fl_le = (\<lambda>a b. a \<le> b), fl_eq = (\<lambda>a b. a = b)\<rparr>"

definition exact_pricer :: "ImpliedVolatility \<Rightarrow> real \<Rightarrow> py_error + real \<times> real" where
  "exact_pricer iv sigma =
     (case BlackScholes_init (iv_S iv) (iv_K iv) (iv_T iv) (iv_r iv) sigma (iv_q iv) of
        Inl e \<Rightarrow> Inl e
      | Inr bs \<Rightarrow> Inr (theoretical_price iv bs, vega bs))"


section \<open>Properties of the normal distribution function\<close>

lemma norm_cdf_term_abs_le:
  "\<bar>norm_cdf_term x k\<bar> \<le> \<bar>x\<bar> * (inverse (fact k) * (x\<^sup>2 / 2) ^ k)"
proof -
  have "\<bar>norm_cdf_term x k\<bar> = \<bar>x\<bar> * (inverse (fact k) * (x\<^sup>2 / 2) ^ k) / real (2 * k + 1)"
    by (simp add: norm_cdf_term_def abs_mult power_abs power_mult
        divide_simps del: of_nat_Suc of_nat_add)
  also have "\<dots> \<le> \<bar>x\<bar> * (inverse (fact k) * (x\<^sup>2 / 2) ^ k) / 1"
    by (intro divide_left_mono mult_nonneg_nonneg) simp_all
  finally show ?thesis by simp
qed

lemma summable_norm_cdf_term: "summable (norm_cdf_term x)"
proof (rule summable_rabs_cancel, rule summable_comparison_test')
  show "summable (\<lambda>k. \<bar>x\<bar> * (inverse (fact k) * (x\<^sup>2 / 2) ^ k))"
    by (intro summable_mult summable_exp)
  show "norm \<bar>norm_cdf_term x k\<bar> \<le> \<bar>x\<bar> * (inverse (fact k) * (x\<^sup>2 / 2) ^ k)" for k
    using norm_cdf_term_abs_le [of x k] by simp
qed

lemma norm_cdf_term_minus: "norm_cdf_term (- x) k = - norm_cdf_term x k"
  by (simp add: norm_cdf_term_def)

lemma norm_cdf_minus: "norm_cdf (- x) = 1 - norm_cdf x"
  by (simp add: norm_cdf_def norm_cdf_term_minus suminf_minus [OF summable_norm_cdf_term])

lemma norm_cdf_zero: "norm_cdf 0 = 1 / 2"
  by (simp add: norm_cdf_def norm_cdf_term_def)

lemma norm_cdf_coeff_term:
  "norm_cdf_coeff n * x ^ n = (if even n then 0 else norm_cdf_term x ((n - 1) div 2))"
proof (cases "even n")
  case True
  then show ?thesis by (simp add: norm_cdf_coeff_def)
next
  case False
  then obtain k where n: "n = 2 * k + 1" by (auto elim: oddE)
  show ?thesis unfolding n by (simp add: norm_cdf_coeff_def norm_cdf_term_def)
qed

lemma norm_cdf_powser_sums: "(\<lambda>n. norm_cdf_coeff n * x ^ n) sums (\<Sum>k. norm_cdf_term x k)"
  unfolding norm_cdf_coeff_term
  by (rule sums_if' [OF summable_sums [OF summable_norm_cdf_term]])

lemma norm_cdf_powser: "(\<Sum>k. norm_cdf_term x k) = (\<Sum>n. norm_cdf_coeff n * x ^ n)"
  using norm_cdf_powser_sums [of x] by (simp add: sums_iff)

lemma diffs_norm_cdf_coeff:
  "diffs norm_cdf_coeff n * x ^ n =
     (if even n then inverse (fact (n div 2)) * (- (x\<^sup>2) / 2) ^ (n div 2) else 0)"
proof (cases "even n")
  case True
  then obtain k where n: "n = 2 * k" by (auto elim: evenE)
  have p: "x ^ (2 * k) = (x\<^sup>2) ^ k" by (simp add: power_mult)
  have "(- (x\<^sup>2 / 2)) ^ k = ((- 1) * x\<^sup>2 / 2) ^ k" by simp
  also have "\<dots> = (- 1) ^ k * (x\<^sup>2) ^ k / 2 ^ k"
    by (simp only: power_divide power_mult_distrib)
  finally have m: "(- (x\<^sup>2 / 2)) ^ k = (- 1) ^ k * (x\<^sup>2) ^ k / 2 ^ k" .
  have d: "diffs norm_cdf_coeff (2 * k) = (- 1) ^ k / (2 ^ k * fact k)"
    by (simp add: diffs_def norm_cdf_coeff_def del: of_nat_Suc)
  have "diffs norm_cdf_coeff (2 * k) * x ^ (2 * k) = (- 1) ^ k / (2 ^ k * fact k) * (x\<^sup>2) ^ k"
    by (simp only: d p)
  also have "\<dots> = inverse (fact k) * (- (x\<^sup>2 / 2)) ^ k"
    by (simp add: m field_simps)
  finally show ?thesis unfolding n by simp
next
  case False
  then show ?thesis by (simp add: diffs_def norm_cdf_coeff_def)
qed

lemma diffs_norm_cdf_sums: "(\<lambda>n. diffs norm_cdf_coeff n * x ^ n) sums exp (- (x\<^sup>2) / 2)"
proof -
  have e: "(\<lambda>k. inverse (fact k) * (- (x\<^sup>2) / 2) ^ k) sums exp (- (x\<^sup>2) / 2)"
    using exp_converges [of "- (x\<^sup>2) / 2"] by (simp add: field_simps)
  have z: "(\<lambda>k::nat. 0::real) sums 0" by simp
  show ?thesis
    unfolding diffs_norm_cdf_coeff using sums_if [OF z e] by simp
qed

lemma DERIV_norm_cdf: "DERIV norm_cdf x :> norm_pdf x"
proof -
  have s: "summable (\<lambda>n. norm_cdf_coeff n * y ^ n)" for y
    using norm_cdf_powser_sums [of y] by (simp add: sums_iff)
  have "DERIV (\<lambda>x. \<Sum>n. norm_cdf_coeff n * x ^ n) x :> (\<Sum>n. diffs norm_cdf_coeff n * x ^ n)"
    by (rule termdiffs_strong_converges_everywhere) (rule s)
  moreover have "(\<Sum>n. diffs norm_cdf_coeff n * x ^ n) = exp (- (x\<^sup>2) / 2)"
    using diffs_norm_cdf_sums [of x] by (simp add: sums_iff)
  ultimately have "DERIV (\<lambda>x. \<Sum>k. norm_cdf_term x k) x :> exp (- (x\<^sup>2) / 2)"
    by (simp add: norm_cdf_powser)
  then have "DERIV (\<lambda>x. (\<Sum>k. norm_cdf_term x k) / sqrt (2 * pi)) x
               :> exp (- (x\<^sup>2) / 2) / sqrt (2 * pi)"
    by (rule DERIV_cdivide)
  then have "DERIV (\<lambda>x. 1 / 2 + (\<Sum>k. norm_cdf_term x k) / sqrt (2 * pi)) x
               :> 0 + exp (- (x\<^sup>2) / 2) / sqrt (2 * pi)"
    by (intro DERIV_add DERIV_const)
  then show ?thesis
    by (simp add: norm_cdf_def [abs_def] norm_pdf_def)
qed

lemma isCont_norm_cdf: "isCont norm_cdf x"
  using DERIV_norm_cdf by (rule DERIV_isCont)

lemma norm_pdf_pos: "0 < norm_pdf x"
  by (simp add: norm_pdf_def)

lemma norm_cdf_strict_mono: "x < y \<Longrightarrow> norm_cdf x < norm_cdf y"
  by (rule DERIV_pos_imp_increasing [of x y norm_cdf]) (auto intro: DERIV_norm_cdf norm_pdf_pos)

text \<open>
  The value at infinity. The comparison of \<open>exp (- x\<^sup>2 / 2)\<close> with powers of the cosine
  (through \<open>(1 - y) ^ n \<le> exp (- n y) \<le> (1 / (1 + y)) ^ n\<close>) and the Wallis bounds
  give \<open>gauss_int x \<le> sqrt (pi / 2)\<close> with equality in the limit, so that \<open>norm_cdf\<close>
  increases from \<open>0\<close> to \<open>1\<close>.
\<close>

lemma cos_int_0 [simp]: "cos_int m 0 = 0"
  by (induction m "0::real" rule: cos_int.induct) simp_all

lemma DERIV_cos_int: "DERIV (cos_int m) x :> cos x ^ m"
proof (induction m x rule: cos_int.induct)
  case (1 x)
  show ?case by (simp add: cos_int.simps [abs_def])
next
  case (2 x)
  show ?case by (simp add: cos_int.simps [abs_def])
next
  case (3 m x)
  have s: "sin x * sin x = 1 - cos x * cos x"
    using sin_cos_squared_add [of x] by (simp add: power2_eq_square algebra_simps)
  have A: "DERIV (\<lambda>x. cos x ^ Suc m) x :> real (Suc m) * cos x ^ m * (- sin x)"
    using DERIV_power [OF DERIV_cos, of "Suc m" x] by (simp add: mult_ac)
  have B: "DERIV (\<lambda>x. cos x ^ Suc m * sin x) x
             :> real (Suc m) * cos x ^ m * (- sin x) * sin x + cos x * cos x ^ Suc m"
    by (rule DERIV_mult [OF A DERIV_sin])
  have C: "DERIV (\<lambda>x. real (Suc m) * cos_int m x) x :> real (Suc m) * cos x ^ m"
    by (rule DERIV_cmult [OF 3])
  have D: "DERIV (\<lambda>x. (cos x ^ Suc m * sin x + real (Suc m) * cos_int m x) / real (Suc (Suc m))) x
             :> (real (Suc m) * cos x ^ m * (- sin x) * sin x + cos x * cos x ^ Suc m
                  + real (Suc m) * cos x ^ m) / real (Suc (Suc m))"
    by (rule DERIV_cdivide [OF DERIV_add [OF B C]])
  have e: "N * P * (- t) * t + c * (c * P) + N * P = (N + 1) * (c * (c * P))"
    if "t * t = 1 - c * c" for N P t c :: real
  proof -
    have "N * P * (- t) * t = - (N * P) * (t * t)" by simp
    also have "\<dots> = - (N * P) * (1 - c * c)" by (simp only: that)
    finally have f: "N * P * (- t) * t = - (N * P) * (1 - c * c)" .
    show ?thesis unfolding f by (simp add: algebra_simps)
  qed
  have N: "real (Suc (Suc m)) = real (Suc m) + 1" by simp
  have "(real (Suc m) * cos x ^ m * (- sin x) * sin x + cos x * cos x ^ Suc m
                  + real (Suc m) * cos x ^ m) / real (Suc (Suc m)) = cos x ^ Suc (Suc m)"
    unfolding N power_Suc e [OF s] by (simp del: of_nat_Suc add: add_nonneg_eq_0_iff)
  with D show ?case by (simp add: cos_int.simps(3) [abs_def])
qed

lemma wallis_0: "wallis 0 = pi / 2"
  by (simp add: wallis_def)

lemma wallis_1: "wallis (Suc 0) = 1"
  by (simp add: wallis_def)

lemma wallis_Suc_Suc: "wallis (Suc (Suc m)) = real (Suc m) / real (Suc (Suc m)) * wallis m"
  by (simp add: wallis_def)

lemma wallis_pos2: "0 < wallis m \<and> 0 < wallis (Suc m)"
  by (induction m) (simp_all add: wallis_0 wallis_1 wallis_Suc_Suc)

lemma wallis_pos: "0 < wallis m"
  using wallis_pos2 [of m] by simp

lemma wallis_step: "real (Suc (Suc m)) * wallis (Suc (Suc m)) = real (Suc m) * wallis m"
  by (simp add: wallis_Suc_Suc)

lemma wallis_product: "real (Suc m) * wallis m * wallis (Suc m) = pi / 2"
proof (induction m)
  case 0
  show ?case by (simp add: wallis_0 wallis_1)
next
  case (Suc m)
  have "real (Suc (Suc m)) * wallis (Suc m) * wallis (Suc (Suc m))
          = wallis (Suc m) * (real (Suc (Suc m)) * wallis (Suc (Suc m)))"
    by (simp only: mult_ac)
  also have "\<dots> = wallis (Suc m) * (real (Suc m) * wallis m)"
    by (simp only: wallis_step)
  also have "\<dots> = real (Suc m) * wallis m * wallis (Suc m)"
    by (simp only: mult_ac)
  also have "\<dots> = pi / 2" by (rule Suc)
  finally show ?case .
qed

lemma cos_int_diff_mono:
  assumes "0 \<le> x" and "x \<le> pi / 2"
  shows "cos_int (Suc m) x \<le> cos_int m x"
proof -
  let ?h = "\<lambda>x. cos_int m x - cos_int (Suc m) x"
  have "?h 0 \<le> ?h x"
  proof (rule DERIV_nonneg_imp_nondecreasing [OF assms(1)])
    fix y :: real
    assume y: "0 \<le> y" "y \<le> x"
    have c: "0 \<le> cos y" "cos y \<le> 1" using y assms by (auto intro!: cos_ge_zero)
    have "DERIV ?h y :> cos y ^ m - cos y ^ Suc m"
      by (intro DERIV_diff DERIV_cos_int)
    moreover have "cos y ^ Suc m \<le> cos y ^ m"
      using c by (simp add: mult_left_le_one_le)
    ultimately show "\<exists>d. DERIV ?h y :> d \<and> 0 \<le> d" by (intro exI [of _ "cos y ^ m - cos y ^ Suc m"]) simp
  qed
  then show ?thesis by simp
qed

lemma wallis_antimono: "wallis (Suc m) \<le> wallis m"
  unfolding wallis_def by (rule cos_int_diff_mono) simp_all

lemma wallis_sq_upper: "(wallis (Suc m))\<^sup>2 \<le> pi / (2 * real (Suc m))"
proof -
  have "(wallis (Suc m))\<^sup>2 \<le> wallis m * wallis (Suc m)"
    unfolding power2_eq_square using wallis_antimono [of m] wallis_pos [of "Suc m"]
    by (intro mult_right_mono) simp_all
  also have "\<dots> = pi / (2 * real (Suc m))"
    using wallis_product [of m] by (simp add: field_simps)
  finally show ?thesis .
qed

lemma wallis_sq_lower: "pi / (2 * real (Suc m)) \<le> (wallis m)\<^sup>2"
proof -
  have "pi / (2 * real (Suc m)) = wallis m * wallis (Suc m)"
    using wallis_product [of m] by (simp add: field_simps)
  also have "\<dots> \<le> (wallis m)\<^sup>2"
    unfolding power2_eq_square using wallis_antimono [of m] wallis_pos [of m]
    by (intro mult_left_mono) simp_all
  finally show ?thesis .
qed

lemma cos_int_mono:
  assumes "0 \<le> x" and "x \<le> y" and "y \<le> pi / 2"
  shows "cos_int m x \<le> cos_int m y"
proof (rule DERIV_nonneg_imp_nondecreasing [OF assms(2)])
  fix z :: real
  assume z: "x \<le> z" "z \<le> y"
  have "0 \<le> cos z" using z assms by (auto intro!: cos_ge_zero)
  then show "\<exists>d. DERIV (cos_int m) z :> d \<and> 0 \<le> d"
    using DERIV_cos_int [of m z] by (intro exI [of _ "cos z ^ m"]) simp
qed

lemma gauss_int_0 [simp]: "gauss_int 0 = 0"
  by (simp add: gauss_int_def norm_cdf_zero)

lemma DERIV_gauss_int: "DERIV gauss_int x :> exp (- (x\<^sup>2) / 2)"
proof -
  have "DERIV (\<lambda>x. sqrt (2 * pi) * (norm_cdf x - 1 / 2)) x :> sqrt (2 * pi) * (norm_pdf x - 0)"
    by (intro DERIV_cmult DERIV_diff DERIV_norm_cdf DERIV_const)
  then show ?thesis by (simp add: gauss_int_def [abs_def] norm_pdf_def)
qed

lemma gauss_int_nonneg: "0 \<le> x \<Longrightarrow> 0 \<le> gauss_int x"
  using DERIV_nonneg_imp_nondecreasing [of 0 x gauss_int] DERIV_gauss_int
  by (metis exp_ge_zero gauss_int_0)

lemma exp_le_inverse_power:
  fixes y :: real
  assumes "0 \<le> y"
  shows "exp (- (real (Suc k) * y)) \<le> (1 / (1 + y)) ^ Suc k"
proof -
  have "(1 + y) ^ Suc k \<le> exp y ^ Suc k"
    using assms by (intro power_mono exp_ge_add_one_self) simp
  also have "\<dots> = exp (real (Suc k) * y)" by (rule exp_of_nat_mult [symmetric])
  finally have "inverse (exp (real (Suc k) * y)) \<le> inverse ((1 + y) ^ Suc k)"
    using assms by (intro le_imp_inverse_le) simp_all
  then show ?thesis by (simp add: exp_minus power_one_over inverse_eq_divide)
qed

lemma gauss_int_le_cos_int:
  assumes x: "0 \<le> x"
  shows "gauss_int x \<le> sqrt (2 * real (Suc k)) * cos_int (2 * k) (arctan (x / sqrt (2 * real (Suc k))))"
proof -
  let ?c = "sqrt (2 * real (Suc k))"
  let ?H = "\<lambda>x. ?c * cos_int (2 * k) (arctan (x / ?c))"
  have c: "0 < ?c" by simp
  have c2: "?c\<^sup>2 = 2 * real (Suc k)" by simp
  have "?H 0 - gauss_int 0 \<le> ?H x - gauss_int x"
  proof (rule DERIV_nonneg_imp_nondecreasing [OF x])
    fix z :: real
    let ?y = "z\<^sup>2 / (2 * real (Suc k))"
    have y: "(z / ?c)\<^sup>2 = ?y" by (simp add: power_divide)
    have 1: "DERIV (\<lambda>x. x / ?c) z :> 1 / ?c"
      by (rule DERIV_cdivide) (rule DERIV_ident)
    have 2: "DERIV (\<lambda>x. arctan (x / ?c)) z :> inverse (1 + (z / ?c)\<^sup>2) * (1 / ?c)"
      by (rule DERIV_chain2 [OF DERIV_arctan 1])
    have 3: "DERIV (\<lambda>x. cos_int (2 * k) (arctan (x / ?c))) z
               :> cos (arctan (z / ?c)) ^ (2 * k) * (inverse (1 + (z / ?c)\<^sup>2) * (1 / ?c))"
      by (rule DERIV_chain2 [OF DERIV_cos_int 2])
    have 4: "DERIV ?H z
               :> ?c * (cos (arctan (z / ?c)) ^ (2 * k) * (inverse (1 + (z / ?c)\<^sup>2) * (1 / ?c)))"
      by (rule DERIV_cmult [OF 3])
    have "cos (arctan (z / ?c)) ^ (2 * k) = ((cos (arctan (z / ?c)))\<^sup>2) ^ k"
      by (simp add: power_mult)
    also have "(cos (arctan (z / ?c)))\<^sup>2 = 1 / (1 + ?y)"
      unfolding cos_arctan y by (simp add: power_divide add_nonneg_nonneg)
    finally have 5: "cos (arctan (z / ?c)) ^ (2 * k) = (1 / (1 + ?y)) ^ k" .
    have 6: "?c * (cos (arctan (z / ?c)) ^ (2 * k) * (inverse (1 + (z / ?c)\<^sup>2) * (1 / ?c)))
               = (1 / (1 + ?y)) ^ Suc k"
      unfolding 5 y using c by (simp add: inverse_eq_divide)
    have e: "real (Suc k) * ?y = z\<^sup>2 / 2"
      by (simp add: field_simps del: of_nat_Suc)
    have "exp (- (z\<^sup>2) / 2) = exp (- (real (Suc k) * ?y))"
      by (simp only: e minus_divide_left)
    also have "\<dots> \<le> (1 / (1 + ?y)) ^ Suc k"
      by (rule exp_le_inverse_power) simp
    finally have 7: "exp (- (z\<^sup>2) / 2) \<le> (1 / (1 + ?y)) ^ Suc k" .
    have "DERIV (\<lambda>x. ?H x - gauss_int x) z :> (1 / (1 + ?y)) ^ Suc k - exp (- (z\<^sup>2) / 2)"
      using DERIV_diff [OF 4 DERIV_gauss_int] unfolding 6 .
    then show "\<exists>d. DERIV (\<lambda>x. ?H x - gauss_int x) z :> d \<and> 0 \<le> d"
      using 7 by (intro exI [of _ "(1 / (1 + ?y)) ^ Suc k - exp (- (z\<^sup>2) / 2)"]) simp
  qed
  then show ?thesis by simp
qed

lemma gauss_int_sq_le:
  assumes x: "0 \<le> x"
  shows "(gauss_int x)\<^sup>2 \<le> pi / 2 * (1 + inverse (real (Suc j)))"
proof -
  let ?k = "Suc j"
  let ?c = "sqrt (2 * real (Suc ?k))"
  have a: "0 \<le> arctan (x / ?c)" using x by simp
  have b: "arctan (x / ?c) \<le> pi / 2" using arctan_ubound [of "x / ?c"] by simp
  have "gauss_int x \<le> ?c * cos_int (2 * ?k) (arctan (x / ?c))"
    by (rule gauss_int_le_cos_int [OF x])
  also have "\<dots> \<le> ?c * wallis (2 * ?k)"
    unfolding wallis_def using cos_int_mono [OF a b order_refl, of "2 * ?k"]
    by (intro mult_left_mono) simp_all
  finally have "(gauss_int x)\<^sup>2 \<le> (?c * wallis (2 * ?k))\<^sup>2"
    using gauss_int_nonneg [OF x] by (intro power_mono) simp_all
  also have "\<dots> = (2 * real (Suc ?k)) * (wallis (Suc (2 * j + 1)))\<^sup>2"
    by (simp add: power_mult_distrib)
  also have "\<dots> \<le> (2 * real (Suc ?k)) * (pi / (2 * real (Suc (2 * j + 1))))"
    by (intro mult_left_mono wallis_sq_upper) simp
  also have "\<dots> = pi / 2 * (1 + inverse (real (Suc j)))"
    by (simp add: field_simps)
  finally show ?thesis .
qed

lemma gauss_int_le:
  assumes "0 \<le> x"
  shows "gauss_int x \<le> sqrt (pi / 2)"
proof -
  have "(\<lambda>j. pi / 2 * (1 + inverse (real (Suc j)))) \<longlonglongrightarrow> pi / 2 * (1 + 0)"
    by (intro tendsto_intros LIMSEQ_inverse_real_of_nat)
  then have "(gauss_int x)\<^sup>2 \<le> pi / 2 * (1 + 0)"
    by (rule LIMSEQ_le_const) (use gauss_int_sq_le [OF assms] in blast)
  then show ?thesis by (intro real_le_rsqrt) simp
qed

lemma sqrt_pi_ratio: "sqrt (pi / 2) / sqrt (2 * pi) = 1 / 2"
proof -
  have "sqrt (pi / 2) / sqrt (2 * pi) = sqrt ((pi / 2) / (2 * pi))"
    by (rule real_sqrt_divide [symmetric])
  also have "(pi / 2) / (2 * pi) = (1 / 2)\<^sup>2" by (simp add: power2_eq_square)
  finally show ?thesis by (simp only: real_sqrt_abs)
qed

lemma norm_cdf_gauss_int: "norm_cdf x = 1 / 2 + gauss_int x / sqrt (2 * pi)"
  by (simp add: gauss_int_def)

lemma norm_cdf_le_1: "norm_cdf x \<le> 1"
proof (cases "0 \<le> x")
  case True
  have "gauss_int x / sqrt (2 * pi) \<le> sqrt (pi / 2) / sqrt (2 * pi)"
    using gauss_int_le [OF True] by (intro divide_right_mono) simp_all
  then show ?thesis unfolding norm_cdf_gauss_int sqrt_pi_ratio by linarith
next
  case False
  then have "norm_cdf x < norm_cdf 0" by (intro norm_cdf_strict_mono) simp
  then show ?thesis by (simp add: norm_cdf_zero)
qed

lemma norm_cdf_less_1: "norm_cdf x < 1"
  using norm_cdf_strict_mono [of x "x + 1"] norm_cdf_le_1 [of "x + 1"] by simp

lemma norm_cdf_pos: "0 < norm_cdf x"
  using norm_cdf_less_1 [of "- x"] by (simp add: norm_cdf_minus)

lemma power_le_exp_minus:
  fixes y :: real
  assumes "0 \<le> y" and "y \<le> 1"
  shows "(1 - y) ^ n \<le> exp (- (real n * y))"
proof -
  have "1 - y \<le> exp (- y)" using exp_ge_add_one_self [of "- y"] by simp
  then have "(1 - y) ^ n \<le> exp (- y) ^ n" using assms by (intro power_mono) simp_all
  also have "\<dots> = exp (real n * (- y))" by (rule exp_of_nat_mult [symmetric])
  finally show ?thesis by simp
qed

lemma le_sqrt_unit:
  fixes u :: real
  assumes "0 \<le> u" and "u \<le> 1"
  shows "u \<le> sqrt u"
proof (rule real_le_rsqrt)
  have "u * u \<le> 1 * u" using assms by (intro mult_right_mono)
  then show "u\<^sup>2 \<le> u" by (simp add: power2_eq_square)
qed

lemma gauss_int_ge_wallis:
  "sqrt (2 * real n) * wallis (2 * n + 1) \<le> gauss_int (sqrt (2 * real n))"
proof -
  let ?c = "sqrt (2 * real n)"
  let ?f = "\<lambda>t. gauss_int (?c * sin t) - ?c * cos_int (2 * n + 1) t"
  have c: "0 \<le> ?c" by simp
  have "?f 0 \<le> ?f (pi / 2)"
  proof (rule DERIV_nonneg_imp_nondecreasing [of 0 "pi / 2" ?f])
    show "(0::real) \<le> pi / 2" by simp
    fix t :: real
    assume t: "0 \<le> t" "t \<le> pi / 2"
    have ct: "0 \<le> cos t" using t by (intro cos_ge_zero) simp_all
    have 1: "DERIV (\<lambda>t. ?c * sin t) t :> ?c * cos t"
      by (rule DERIV_cmult [OF DERIV_sin])
    have 2: "DERIV (\<lambda>t. gauss_int (?c * sin t)) t :> exp (- ((?c * sin t)\<^sup>2) / 2) * (?c * cos t)"
      by (rule DERIV_chain2 [OF DERIV_gauss_int 1])
    have 3: "DERIV (\<lambda>t. ?c * cos_int (2 * n + 1) t) t :> ?c * cos t ^ (2 * n + 1)"
      by (rule DERIV_cmult [OF DERIV_cos_int])
    have e: "- ((?c * sin t)\<^sup>2) / 2 = - (real n * (sin t)\<^sup>2)"
      by (simp add: power_mult_distrib)
    have "(cos t)\<^sup>2 = 1 - (sin t)\<^sup>2"
      by (rule cos_squared_eq)
    then have "cos t ^ (2 * n) = (1 - (sin t)\<^sup>2) ^ n" by (simp add: power_mult)
    also have "\<dots> \<le> exp (- (real n * (sin t)\<^sup>2))"
      by (rule power_le_exp_minus) (simp_all add: abs_square_le_1)
    finally have "cos t ^ (2 * n) * (?c * cos t) \<le> exp (- (real n * (sin t)\<^sup>2)) * (?c * cos t)"
      using ct by (intro mult_right_mono) simp_all
    then have 4: "?c * cos t ^ (2 * n + 1) \<le> exp (- ((?c * sin t)\<^sup>2) / 2) * (?c * cos t)"
      unfolding e by (simp add: mult_ac)
    show "\<exists>d. DERIV ?f t :> d \<and> 0 \<le> d"
      using DERIV_diff [OF 2 3] 4
      by (intro exI [of _ "exp (- ((?c * sin t)\<^sup>2) / 2) * (?c * cos t) - ?c * cos t ^ (2 * n + 1)"])
        simp
  qed
  then show ?thesis by (simp add: wallis_def)
qed

lemma norm_cdf_sqrt_ge: "1 - 1 / (2 * real (Suc n)) \<le> norm_cdf (sqrt (2 * real n))"
proof -
  let ?c = "sqrt (2 * real n)"
  let ?t = "real n / real (Suc n)"
  have t: "0 \<le> ?t" "?t \<le> 1" by simp_all
  have "pi / 2 * ?t = (2 * real n) * (pi / (2 * real (Suc (2 * n + 1))))"
    by (simp add: field_simps)
  also have "\<dots> \<le> (2 * real n) * (wallis (2 * n + 1))\<^sup>2"
    by (intro mult_left_mono wallis_sq_lower) simp
  also have "\<dots> = (?c * wallis (2 * n + 1))\<^sup>2" by (simp add: power_mult_distrib)
  also have "\<dots> \<le> (gauss_int ?c)\<^sup>2"
    using wallis_pos [of "2 * n + 1"] by (intro power_mono gauss_int_ge_wallis) simp
  finally have "sqrt (pi / 2 * ?t) \<le> gauss_int ?c"
    using gauss_int_nonneg [of ?c] by (intro real_le_lsqrt) simp_all
  moreover have "sqrt (pi / 2) * ?t \<le> sqrt (pi / 2 * ?t)"
  proof -
    have "?t \<le> sqrt ?t" using t by (rule le_sqrt_unit)
    then show ?thesis unfolding real_sqrt_mult by (intro mult_left_mono) simp_all
  qed
  ultimately have "sqrt (pi / 2) * ?t \<le> gauss_int ?c" by simp
  then have "sqrt (pi / 2) * ?t / sqrt (2 * pi) \<le> gauss_int ?c / sqrt (2 * pi)"
    by (intro divide_right_mono) simp_all
  moreover have "sqrt (pi / 2) * ?t / sqrt (2 * pi) = 1 / 2 * ?t"
    using sqrt_pi_ratio by simp
  moreover have "1 / 2 + 1 / 2 * ?t = 1 - 1 / (2 * real (Suc n))"
    by (simp add: field_simps)
  ultimately show ?thesis unfolding norm_cdf_gauss_int by linarith
qed

lemma norm_cdf_mono: "x \<le> y \<Longrightarrow> norm_cdf x \<le> norm_cdf y"
  using norm_cdf_strict_mono [of x y] by (cases "x = y") auto

lemma norm_cdf_upper_tail:
  assumes x: "0 < x"
  shows "1 - 1 / x\<^sup>2 \<le> norm_cdf x"
proof -
  define n where "n = nat \<lfloor>x\<^sup>2 / 2\<rfloor>"
  have f: "0 \<le> \<lfloor>x\<^sup>2 / 2\<rfloor>" by simp
  have n: "real n = of_int \<lfloor>x\<^sup>2 / 2\<rfloor>" unfolding n_def using f by simp
  have n1: "real n \<le> x\<^sup>2 / 2" unfolding n by (rule of_int_floor_le)
  have n2: "x\<^sup>2 / 2 < real (Suc n)"
    using real_of_int_floor_add_one_gt [of "x\<^sup>2 / 2"] unfolding of_nat_Suc n by linarith
  have "sqrt (2 * real n) \<le> sqrt (x\<^sup>2)" using n1 by (intro real_sqrt_le_mono) simp
  then have "sqrt (2 * real n) \<le> x" using x by simp
  then have "norm_cdf (sqrt (2 * real n)) \<le> norm_cdf x" by (rule norm_cdf_mono)
  moreover have "1 / (2 * real (Suc n)) \<le> 1 / x\<^sup>2"
    using n2 x by (intro divide_left_mono) (simp_all del: of_nat_Suc)
  ultimately show ?thesis using norm_cdf_sqrt_ge [of n] by linarith
qed

lemma norm_cdf_lower_tail:
  assumes x: "x < 0"
  shows "norm_cdf x \<le> 1 / x\<^sup>2"
  using norm_cdf_upper_tail [of "- x"] x by (simp add: norm_cdf_minus)

lemma norm_cdf_at_top: "(norm_cdf \<longlongrightarrow> 1) at_top"
proof (rule tendsto_sandwich)
  show "eventually (\<lambda>x. 1 - 1 / x\<^sup>2 \<le> norm_cdf x) at_top"
    using eventually_gt_at_top [of "0::real"]
    by eventually_elim (rule norm_cdf_upper_tail)
  show "eventually (\<lambda>x. norm_cdf x \<le> 1) at_top"
    by (simp add: norm_cdf_le_1)
  have "filterlim (\<lambda>x::real. x\<^sup>2) at_top at_top"
    by (rule filterlim_pow_at_top [OF _ filterlim_ident]) simp
  then have "((\<lambda>x::real. inverse (x\<^sup>2)) \<longlongrightarrow> 0) at_top"
    by (rule tendsto_inverse_0_at_top)
  then have "((\<lambda>x::real. 1 - inverse (x\<^sup>2)) \<longlongrightarrow> 1 - 0) at_top"
    by (intro tendsto_diff tendsto_const)
  then show "((\<lambda>x::real. 1 - 1 / x\<^sup>2) \<longlongrightarrow> 1) at_top"
    by (simp add: inverse_eq_divide)
  show "((\<lambda>x::real. 1::real) \<longlongrightarrow> 1) at_top" by simp
qed

lemma norm_cdf_at_bot: "(norm_cdf \<longlongrightarrow> 0) at_bot"
proof -
  have "((\<lambda>x. 1 - norm_cdf (- x)) \<longlongrightarrow> 1 - 1) at_bot"
    by (intro tendsto_intros filterlim_compose [OF norm_cdf_at_top]
        filterlim_uminus_at_top_at_bot)
  then show ?thesis by (simp add: norm_cdf_minus)
qed

lemma continuous_on_norm_cdf:
  assumes "continuous_on A f"
  shows "continuous_on A (\<lambda>x. norm_cdf (f x))"
proof -
  have "continuous_on UNIV norm_cdf"
    by (simp add: continuous_on_eq_continuous_at isCont_norm_cdf)
  then show ?thesis
    using assms by (rule continuous_on_compose2) simp
qed

section \<open>Properties of the analytic pricer\<close>

lemma BlackScholes_init_ok:
  "K \<noteq> 0 \<Longrightarrow> \<exists>bs. BlackScholes_init S K T r sigma q = Inr bs"
  by (simp add: BlackScholes_init_def Let_def)

lemma BlackScholes_init_d1:
  "K \<noteq> 0 \<Longrightarrow> BlackScholes_init S K T r sigma q = Inr bs \<Longrightarrow>
     bs_d1 bs = spec_d1 S K T r sigma q \<and> bs_d2 bs = spec_d2 S K T r sigma q"
  by (auto simp: BlackScholes_init_def Let_def spec_d1_def spec_d2_def)

lemma BlackScholes_init_fields:
  "BlackScholes_init S K T r sigma q = Inr bs \<Longrightarrow>
     bs_S bs = S \<and> bs_K bs = K \<and> bs_T bs = T \<and> bs_r bs = r \<and> bs_sigma bs = sigma \<and> bs_q bs = q"
  by (auto simp: BlackScholes_init_def Let_def split: if_splits)

lemma call_price_upper:
  assumes "0 \<le> bs_S bs" and "0 \<le> bs_K bs"
  shows "call_price bs \<le> bs_S bs * exp (- bs_q bs * bs_T bs)"
proof -
  let ?a = "bs_S bs * exp (- bs_q bs * bs_T bs)" and ?b = "bs_K bs * exp (- bs_r bs * bs_T bs)"
  have a: "0 \<le> ?a" and b: "0 \<le> ?b" using assms by simp_all
  have "?a * norm_cdf (bs_d1 bs) \<le> ?a * 1"
    using a norm_cdf_le_1 [of "bs_d1 bs"] by (intro mult_left_mono) simp_all
  moreover have "0 \<le> ?b * norm_cdf (bs_d2 bs)"
    using norm_cdf_pos [of "bs_d2 bs"] by (intro mult_nonneg_nonneg b) simp
  ultimately show ?thesis unfolding call_price_def by simp
qed

lemma vega_pos: "0 < bs_S bs \<Longrightarrow> 0 < bs_T bs \<Longrightarrow> 0 < vega bs"
  by (simp add: vega_def norm_pdf_pos)

lemma continuous_on_spec_d1:
  assumes "0 < T" and "\<forall>sigma\<in>A. 0 < sigma"
  shows "continuous_on A (\<lambda>sigma. spec_d1 S K T r sigma q)"
  unfolding spec_d1_def using assms by (auto intro!: continuous_intros)

lemma continuous_on_spec_call:
  assumes "0 < T" and "\<forall>sigma\<in>A. 0 < sigma"
  shows "continuous_on A (\<lambda>sigma. spec_call S K T r sigma q)"
  unfolding spec_call_def spec_d2_def
  by (intro continuous_intros continuous_on_norm_cdf continuous_on_spec_d1 assms)

lemma continuous_on_spec_put:
  assumes "0 < T" and "\<forall>sigma\<in>A. 0 < sigma"
  shows "continuous_on A (\<lambda>sigma. spec_put S K T r sigma q)"
  unfolding spec_put_def spec_d2_def
  by (intro continuous_intros continuous_on_norm_cdf continuous_on_spec_d1 assms)

text \<open>
  The model price exceeds its zero-volatility limit: as a function of the total
  volatility \<open>v = sigma sqrt T\<close> the price increases strictly (its derivative is the
  raw vega), and it tends to \<open>0\<close> with \<open>v\<close> when the discounted spot is below the
  discounted strike.
\<close>

lemma norm_pdf_ratio:
  assumes "0 < a" and "0 < b" and "v \<noteq> 0"
  shows "a * norm_pdf (ln (a / b) / v + v / 2) = b * norm_pdf (ln (a / b) / v - v / 2)"
proof -
  let ?l = "ln (a / b)"
  have "- ((?l / v - v / 2)\<^sup>2) / 2 = - ((?l / v + v / 2)\<^sup>2) / 2 + ?l"
    using assms(3) by (simp add: power2_eq_square field_simps)
  then have "exp (- ((?l / v - v / 2)\<^sup>2) / 2) = exp (- ((?l / v + v / 2)\<^sup>2) / 2) * exp ?l"
    by (simp only: exp_add)
  also have "exp ?l = a / b" using assms by simp
  finally show ?thesis using assms by (simp add: norm_pdf_def field_simps)
qed

lemma DERIV_kernel:
  assumes "0 < a" and "0 < b" and "0 < v"
  shows "DERIV (\<lambda>w. a * norm_cdf (ln (a / b) / w + w / 2) - b * norm_cdf (ln (a / b) / w - w / 2)) v
           :> a * norm_pdf (ln (a / b) / v + v / 2)"
proof -
  let ?l = "ln (a / b)"
  have v: "v \<noteq> 0" using assms by simp
  have 1: "DERIV (\<lambda>w. ?l / w + w / 2) v :> - (?l / (v * v)) + 1 / 2"
    using v by (auto intro!: derivative_eq_intros simp: field_simps)
  have 2: "DERIV (\<lambda>w. ?l / w - w / 2) v :> - (?l / (v * v)) - 1 / 2"
    using v by (auto intro!: derivative_eq_intros simp: field_simps)
  have 3: "DERIV (\<lambda>w. a * norm_cdf (?l / w + w / 2)) v
             :> a * (norm_pdf (?l / v + v / 2) * (- (?l / (v * v)) + 1 / 2))"
    by (rule DERIV_cmult [OF DERIV_chain2 [OF DERIV_norm_cdf 1]])
  have 4: "DERIV (\<lambda>w. b * norm_cdf (?l / w - w / 2)) v
             :> b * (norm_pdf (?l / v - v / 2) * (- (?l / (v * v)) - 1 / 2))"
    by (rule DERIV_cmult [OF DERIV_chain2 [OF DERIV_norm_cdf 2]])
  have "a * (norm_pdf (?l / v + v / 2) * (- (?l / (v * v)) + 1 / 2))
          - b * (norm_pdf (?l / v - v / 2) * (- (?l / (v * v)) - 1 / 2))
        = a * norm_pdf (?l / v + v / 2)"
    using norm_pdf_ratio [OF assms(1,2) v] by (simp add: algebra_simps)
  with DERIV_diff [OF 3 4] show ?thesis by simp
qed

lemma kernel_strict_mono:
  assumes "0 < a" and "0 < b" and "0 < w" and "w < v"
  shows "a * norm_cdf (ln (a / b) / w + w / 2) - b * norm_cdf (ln (a / b) / w - w / 2)
       < a * norm_cdf (ln (a / b) / v + v / 2) - b * norm_cdf (ln (a / b) / v - v / 2)"
proof (rule DERIV_pos_imp_increasing [OF assms(4)])
  fix t :: real
  assume "w \<le> t" "t \<le> v"
  then have t: "0 < t" using assms by simp
  show "\<exists>y. DERIV (\<lambda>w. a * norm_cdf (ln (a / b) / w + w / 2)
                - b * norm_cdf (ln (a / b) / w - w / 2)) t :> y \<and> 0 < y"
    using DERIV_kernel [OF assms(1,2) t] assms(1) norm_pdf_pos [of "ln (a / b) / t + t / 2"]
    by (intro exI [of _ "a * norm_pdf (ln (a / b) / t + t / 2)"] conjI mult_pos_pos)
qed

lemma kernel_tendsto_0:
  assumes "0 < a" and "0 < b" and "a < b"
  shows "((\<lambda>w. a * norm_cdf (ln (a / b) / w + w / 2) - b * norm_cdf (ln (a / b) / w - w / 2))
           \<longlongrightarrow> 0) (at_right 0)"
proof -
  let ?l = "ln (a / b)"
  have l: "?l < 0" using assms by simp
  have i: "LIM w at_right 0. ?l * inverse w :> at_bot"
    by (rule filterlim_tendsto_neg_mult_at_bot [OF tendsto_const l filterlim_inverse_at_top_right])
  have h0: "((\<lambda>w::real. w / 2) \<longlongrightarrow> 0 / 2) (at_right 0)"
    by (intro tendsto_divide tendsto_ident_at tendsto_const) simp
  then have h: "((\<lambda>w::real. w / 2) \<longlongrightarrow> 0) (at_right 0)" by simp
  have h': "((\<lambda>w::real. - (w / 2)) \<longlongrightarrow> 0) (at_right 0)"
    using tendsto_minus [OF h] by simp
  have 1: "LIM w at_right 0. w / 2 + ?l * inverse w :> at_bot"
    by (rule iffD2 [OF filterlim_tendsto_add_at_bot_iff [OF h] i])
  have 2: "LIM w at_right 0. - (w / 2) + ?l * inverse w :> at_bot"
    by (rule iffD2 [OF filterlim_tendsto_add_at_bot_iff [OF h'] i])
  have 3: "((\<lambda>w. norm_cdf (w / 2 + ?l * inverse w)) \<longlongrightarrow> 0) (at_right 0)"
    by (rule filterlim_compose [OF norm_cdf_at_bot 1])
  have 4: "((\<lambda>w. norm_cdf (- (w / 2) + ?l * inverse w)) \<longlongrightarrow> 0) (at_right 0)"
    by (rule filterlim_compose [OF norm_cdf_at_bot 2])
  have 5: "((\<lambda>w. a * norm_cdf (w / 2 + ?l * inverse w) - b * norm_cdf (- (w / 2) + ?l * inverse w))
           \<longlongrightarrow> a * 0 - b * 0) (at_right 0)"
    by (intro tendsto_diff tendsto_mult tendsto_const 3 4)
  have e1: "?l / w + w / 2 = w / 2 + ?l * inverse w" for w :: real
    by (simp only: divide_inverse add.commute)
  have e2: "?l / w - w / 2 = - (w / 2) + ?l * inverse w" for w :: real
    by (simp only: divide_inverse diff_conv_add_uminus add.commute)
  show ?thesis unfolding e1 e2 using 5 by simp
qed

lemma kernel_pos:
  assumes a: "0 < a" and b: "0 < b" and v: "0 < v"
  shows "0 < a * norm_cdf (ln (a / b) / v + v / 2) - b * norm_cdf (ln (a / b) / v - v / 2)"
proof (cases "b \<le> a")
  case True
  then have "0 \<le> ln (a / b)" using a b by simp
  have "norm_cdf (ln (a / b) / v - v / 2) < norm_cdf (ln (a / b) / v + v / 2)"
    using v by (intro norm_cdf_strict_mono) simp
  then have "b * norm_cdf (ln (a / b) / v - v / 2) < b * norm_cdf (ln (a / b) / v + v / 2)"
    using b by simp
  also have "\<dots> \<le> a * norm_cdf (ln (a / b) / v + v / 2)"
    using True norm_cdf_pos [of "ln (a / b) / v + v / 2"] by (intro mult_right_mono) simp_all
  finally show ?thesis by simp
next
  case False
  then have ab: "a < b" by simp
  let ?g = "\<lambda>w. a * norm_cdf (ln (a / b) / w + w / 2) - b * norm_cdf (ln (a / b) / w - w / 2)"
  have "\<exists>c>0. \<forall>w>0. w < c \<longrightarrow> ?g w \<le> ?g (v / 2)"
  proof (intro exI [of _ "v / 2"] conjI allI impI)
    show "0 < v / 2" using v by simp
    fix w :: real
    assume "0 < w" "w < v / 2"
    then show "?g w \<le> ?g (v / 2)"
      using kernel_strict_mono [OF a b, of w "v / 2"] by simp
  qed
  then have "eventually (\<lambda>w. ?g w \<le> ?g (v / 2)) (at_right 0)"
    using eventually_at_right [of 0 "v / 2"] v by simp
  then have "0 \<le> ?g (v / 2)"
    by (intro tendsto_upperbound [OF kernel_tendsto_0 [OF a b ab]]) simp_all
  also have "?g (v / 2) < ?g v"
    using v by (intro kernel_strict_mono [OF a b]) simp_all
  finally show ?thesis .
qed

lemma spec_d1_kernel:
  assumes "0 < S" and "0 < K" and "0 < T" and "0 < sigma"
  shows "spec_d1 S K T r sigma q =
           ln ((S * exp (- (q * T))) / (K * exp (- (r * T)))) / (sigma * sqrt T) + sigma * sqrt T / 2"
    and "spec_d2 S K T r sigma q =
           ln ((S * exp (- (q * T))) / (K * exp (- (r * T)))) / (sigma * sqrt T) - sigma * sqrt T / 2"
proof -
  let ?v = "sigma * sqrt T"
  have v: "0 < ?v" using assms by simp
  have l: "ln ((S * exp (- (q * T))) / (K * exp (- (r * T)))) = ln (S / K) + (r - q) * T"
  proof -
    have "ln ((S * exp (- (q * T))) / (K * exp (- (r * T))))
            = ln (S * exp (- (q * T))) - ln (K * exp (- (r * T)))"
      using assms by (simp add: ln_div)
    also have "\<dots> = (ln S + - (q * T)) - (ln K + - (r * T))"
      using assms by (simp add: ln_mult)
    also have "\<dots> = ln (S / K) + (r - q) * T"
      using assms by (simp add: ln_div algebra_simps)
    finally show ?thesis .
  qed
  have s: "sigma\<^sup>2 / 2 * T = ?v * (?v / 2)"
    using assms by (simp add: power2_eq_square)
  have "spec_d1 S K T r sigma q = (ln (S / K) + (r - q) * T + sigma\<^sup>2 / 2 * T) / ?v"
    by (simp add: spec_d1_def algebra_simps)
  also have "\<dots> = (ln (S / K) + (r - q) * T) / ?v + ?v / 2"
    unfolding s using v by (simp add: add_divide_distrib)
  finally show 1: "spec_d1 S K T r sigma q =
           ln ((S * exp (- (q * T))) / (K * exp (- (r * T)))) / ?v + ?v / 2"
    unfolding l .
  show "spec_d2 S K T r sigma q =
           ln ((S * exp (- (q * T))) / (K * exp (- (r * T)))) / ?v - ?v / 2"
    unfolding spec_d2_def 1 by simp
qed

lemma spec_call_pos:
  assumes "0 < S" and "0 < K" and "0 < T" and "0 < sigma"
  shows "0 < spec_call S K T r sigma q"
  unfolding spec_call_def spec_d1_kernel [OF assms]
  using assms by (intro kernel_pos) simp_all

lemma spec_put_pos:
  assumes "0 < S" and "0 < K" and "0 < T" and "0 < sigma"
  shows "0 < spec_put S K T r sigma q"
proof -
  let ?a = "S * exp (- (q * T))" and ?b = "K * exp (- (r * T))" and ?v = "sigma * sqrt T"
  have ab: "0 < ?a" "0 < ?b" "0 < ?v" using assms by simp_all
  have l: "ln (?b / ?a) = - ln (?a / ?b)"
    using ab by (simp add: ln_div)
  have k: "0 < ?b * norm_cdf (- ln (?a / ?b) / ?v + ?v / 2)
             - ?a * norm_cdf (- ln (?a / ?b) / ?v - ?v / 2)"
    using kernel_pos [OF ab(2,1,3)] unfolding l by simp
  have a1: "- spec_d2 S K T r sigma q = - ln (?a / ?b) / ?v + ?v / 2"
    unfolding spec_d1_kernel(2) [OF assms] by simp
  have a2: "- spec_d1 S K T r sigma q = - ln (?a / ?b) / ?v - ?v / 2"
    unfolding spec_d1_kernel(1) [OF assms] by simp
  show ?thesis unfolding spec_put_def a1 a2 using k by simp
qed

lemma spec_parity: "spec_call S K T r sigma q - spec_put S K T r sigma q =
    S * exp (- (q * T)) - K * exp (- (r * T))"
  by (simp add: spec_call_def spec_put_def norm_cdf_minus algebra_simps)

lemma spec_call_lower:
  assumes "0 < S" and "0 < K" and "0 < T" and "0 < sigma"
  shows "max 0 (S * exp (- (q * T)) - K * exp (- (r * T))) < spec_call S K T r sigma q"
  using spec_call_pos [OF assms, of r q] spec_put_pos [OF assms, of r q]
    spec_parity [of S K T r sigma q] by simp

lemma spec_put_lower:
  assumes "0 < S" and "0 < K" and "0 < T" and "0 < sigma"
  shows "max 0 (K * exp (- (r * T)) - S * exp (- (q * T))) < spec_put S K T r sigma q"
  using spec_call_pos [OF assms, of r q] spec_put_pos [OF assms, of r q]
    spec_parity [of S K T r sigma q] by simp

text \<open>
  C1. For a contract with positive \<open>S\<close>, \<open>K\<close>, \<open>T\<close> and \<open>sigma\<close> the pricer is
  constructed, \<open>call_price\<close> returns \<open>S e^(-qT) \<Phi>(d1) - K e^(-rT) \<Phi>(d2)\<close> and
  \<open>put_price\<close> returns \<open>K e^(-rT) \<Phi>(-d2) - S e^(-qT) \<Phi>(-d1)\<close>, with
  \<open>d1 = (ln (S/K) + (r - q + sigma\<^sup>2/2) T) / (sigma sqrt T)\<close> and
  \<open>d2 = d1 - sigma sqrt T\<close>.
\<close>

theorem black_scholes_prices:
  assumes "0 < S" and "0 < K" and "0 < T" and "0 < sigma"
  shows "\<exists>bs. BlackScholes_init S K T r sigma q = Inr bs \<and>
           call_price bs = spec_call S K T r sigma q \<and>
           put_price bs = spec_put S K T r sigma q"
proof -
  have "K \<noteq> 0" using assms by simp
  then obtain bs where bs: "BlackScholes_init S K T r sigma q = Inr bs"
    using BlackScholes_init_ok by blast
  have d: "bs_d1 bs = spec_d1 S K T r sigma q" "bs_d2 bs = spec_d2 S K T r sigma q"
    using BlackScholes_init_d1 [OF _ bs] assms by auto
  have f: "bs_S bs = S" "bs_K bs = K" "bs_T bs = T" "bs_r bs = r" "bs_q bs = q"
    using BlackScholes_init_fields [OF bs] by auto
  have "call_price bs = spec_call S K T r sigma q"
    by (simp add: call_price_def spec_call_def d f)
  moreover have "put_price bs = spec_put S K T r sigma q"
    by (simp add: put_price_def spec_put_def d f)
  ultimately show ?thesis using bs by blast
qed

theorem black_scholes_prices_witness:
  "(0::real) < 100 \<and> (0::real) < 100 \<and> (0::real) < 1 \<and> (0::real) < 1 / 5 \<and>
   (\<exists>bs. BlackScholes_init 100 100 1 (1 / 20) (1 / 5) 0 = Inr bs \<and>
      call_price bs = spec_call 100 100 1 (1 / 20) (1 / 5) 0 \<and>
      put_price bs = spec_put 100 100 1 (1 / 20) (1 / 5) 0)"
  using black_scholes_prices [of 100 100 1 "1 / 5" "1 / 20" 0] by simp

text \<open>
  C2. Put-call parity: for a contract with positive \<open>S\<close>, \<open>K\<close>, \<open>T\<close> and \<open>sigma\<close>,
  \<open>call_price - put_price = S e^(-qT) - K e^(-rT)\<close>, exactly over the reals.
\<close>

theorem put_call_parity:
  assumes "0 < S" and "0 < K" and "0 < T" and "0 < sigma"
  shows "\<exists>bs. BlackScholes_init S K T r sigma q = Inr bs \<and>
           call_price bs - put_price bs = S * exp (- (q * T)) - K * exp (- (r * T))"
proof -
  have "K \<noteq> 0" using assms by simp
  then obtain bs where bs: "BlackScholes_init S K T r sigma q = Inr bs"
    using BlackScholes_init_ok by blast
  have f: "bs_S bs = S" "bs_K bs = K" "bs_T bs = T" "bs_r bs = r" "bs_q bs = q"
    using BlackScholes_init_fields [OF bs] by auto
  have "call_price bs - put_price bs = S * exp (- (q * T)) - K * exp (- (r * T))"
    by (simp add: call_price_def put_price_def f norm_cdf_minus algebra_simps)
  then show ?thesis using bs by blast
qed

theorem put_call_parity_witness:
  "(0::real) < 100 \<and> (0::real) < 100 \<and> (0::real) < 1 \<and> (0::real) < 1 / 5 \<and>
   (\<exists>bs. BlackScholes_init 100 100 1 (1 / 20) (1 / 5) 0 = Inr bs \<and>
      call_price bs - put_price bs = 100 * exp (- (0 * 1)) - 100 * exp (- (1 / 20 * 1)))"
  using put_call_parity [of 100 100 1 "1 / 5" "1 / 20" 0] by simp

text \<open>
  C5 (as amended). Constructing the analytic pricer validates nothing and clamps
  nothing: for every input with \<open>K \<noteq> 0\<close> (non-positive \<open>S\<close>, \<open>T\<close>, \<open>sigma\<close> and negative
  \<open>K\<close> included) the pricer is constructed and holds \<open>S\<close>, \<open>K\<close>, \<open>T\<close>, \<open>r\<close>, \<open>sigma\<close>,
  \<open>q\<close> unchanged; with \<open>K = 0\<close> the division \<open>S/K\<close> raises \<open>ZeroDivisionError\<close>.
\<close>

theorem BlackScholes_init_unchecked:
  "(K \<noteq> 0 \<longrightarrow>
      (\<exists>bs. BlackScholes_init S K T r sigma q = Inr bs \<and>
         bs_S bs = S \<and> bs_K bs = K \<and> bs_T bs = T \<and> bs_r bs = r \<and> bs_sigma bs = sigma \<and>
         bs_q bs = q)) \<and>
   (K = 0 \<longrightarrow> BlackScholes_init S K T r sigma q = Inl ZeroDivisionError)"
  by (simp add: BlackScholes_init_def Let_def)

theorem BlackScholes_init_unchecked_witness:
  "(\<exists>bs. BlackScholes_init (- 100) 100 (- 1) (1 / 20) (- (1 / 5)) 0 = Inr bs \<and>
         bs_S bs = - 100 \<and> bs_K bs = 100 \<and> bs_T bs = - 1 \<and> bs_r bs = 1 / 20 \<and>
         bs_sigma bs = - (1 / 5) \<and> bs_q bs = 0) \<and>
   BlackScholes_init 100 0 1 (1 / 20) (1 / 5) 0 = Inl ZeroDivisionError"
  using BlackScholes_init_unchecked [of 100 "- 100" "- 1" "1 / 20" "- (1 / 5)" 0]
    BlackScholes_init_unchecked [of 0 100 1 "1 / 20" "1 / 5" 0]
  by simp

text \<open>The volatility \<open>0\<close> is accepted and stored.\<close>

theorem invalid_sigma_accepted_counterexample:
  "\<not> isl (BlackScholes_init 100 100 1 (1 / 20) 0 0) \<and>
   bs_sigma (projr (BlackScholes_init 100 100 1 (1 / 20) 0 0)) = 0"
  by (simp add: BlackScholes_init_def Let_def)

section \<open>Properties of the lattice pricer\<close>

lemma length_node_update: "length (node_update bt j V i) = length V"
  by (simp add: node_update_def Let_def)

lemma length_backward_step: "length (backward_step bt V j) = length V"
proof -
  have "length (fold (\<lambda>i V. node_update bt j V i) xs V) = length V" for xs
    by (induction xs arbitrary: V) (simp_all add: length_node_update)
  then show ?thesis unfolding backward_step_def .
qed

lemma length_backward_induction: "length (backward_induction bt V) = length V"
proof -
  have "length (fold (\<lambda>j V. backward_step bt V j) xs V) = length V" for xs
    by (induction xs arbitrary: V) (simp_all add: length_backward_step)
  then show ?thesis unfolding backward_induction_def .
qed

lemma price_returns:
  assumes "0 \<le> bt_n bt"
  shows "price bt = Inr (backward_induction bt (map (payoff bt) (terminal_prices bt)) ! 0)"
proof -
  have "length (backward_induction bt (map (payoff bt) (terminal_prices bt))) = nat (bt_n bt + 1)"
    by (simp add: length_backward_induction terminal_prices_def)
  with assms have "backward_induction bt (map (payoff bt) (terminal_prices bt)) \<noteq> []"
    by auto
  with assms show ?thesis by (simp add: price_def Let_def)
qed

lemma node_update_mono:
  assumes le: "list_all2 (\<le>) Ve Va"
    and i: "i + 1 < length Ve"
    and p: "0 \<le> bt_p bte" "bt_p bte \<le> 1" and d: "0 \<le> bt_discount bte"
    and eu: "bt_exercise_type bte \<noteq> ''american''"
    and same: "bt_p bta = bt_p bte" "bt_discount bta = bt_discount bte"
  shows "list_all2 (\<le>) (node_update bte j Ve i) (node_update bta j' Va i)"
proof -
  have len: "length Ve = length Va" using le by (rule list_all2_lengthD)
  have nth: "Ve ! k \<le> Va ! k" if "k < length Ve" for k
    using le that by (simp add: list_all2_conv_all_nth)
  let ?ce = "bt_discount bte * (bt_p bte * Ve ! i + (1 - bt_p bte) * Ve ! (i + 1))"
  let ?ca = "bt_discount bte * (bt_p bte * Va ! i + (1 - bt_p bte) * Va ! (i + 1))"
  have "bt_p bte * Ve ! i + (1 - bt_p bte) * Ve ! (i + 1)
          \<le> bt_p bte * Va ! i + (1 - bt_p bte) * Va ! (i + 1)"
    using nth [of i] nth [of "i + 1"] i p
    by (intro add_mono mult_left_mono) auto
  then have c: "?ce \<le> ?ca" using d by (rule mult_left_mono)
  have e: "node_update bte j Ve i = Ve[i := ?ce]"
    using eu by (simp add: node_update_def Let_def)
  have "\<exists>x. node_update bta j' Va i = Va[i := x] \<and> ?ca \<le> x"
    using i len by (auto simp: node_update_def Let_def same)
  then obtain x where a: "node_update bta j' Va i = Va[i := x]" and x: "?ca \<le> x" by blast
  from c x have cx: "?ce \<le> x" by (rule order_trans)
  show ?thesis unfolding e a
    using le cx i len by (auto simp: list_all2_conv_all_nth nth_list_update)
qed

lemma backward_step_mono:
  assumes le: "list_all2 (\<le>) Ve Va"
    and j: "j + 1 < length Ve"
    and p: "0 \<le> bt_p bte" "bt_p bte \<le> 1" and d: "0 \<le> bt_discount bte"
    and eu: "bt_exercise_type bte \<noteq> ''american''"
    and same: "bt_p bta = bt_p bte" "bt_discount bta = bt_discount bte"
  shows "list_all2 (\<le>) (backward_step bte Ve j) (backward_step bta Va j)"
proof -
  have "list_all2 (\<le>) (fold (\<lambda>i V. node_update bte j V i) xs Ve)
          (fold (\<lambda>i V. node_update bta j V i) xs Va)"
    if "\<forall>i\<in>set xs. i + 1 < length Ve" "list_all2 (\<le>) Ve Va" for xs Ve Va
    using that
  proof (induction xs arbitrary: Ve Va)
    case Nil
    then show ?case by simp
  next
    case (Cons i xs)
    have "list_all2 (\<le>) (node_update bte j Ve i) (node_update bta j Va i)"
      using Cons.prems by (intro node_update_mono p d eu same) auto
    moreover have "\<forall>k\<in>set xs. k + 1 < length (node_update bte j Ve i)"
      using Cons.prems by (simp add: length_node_update)
    ultimately show ?case using Cons.IH by simp
  qed
  moreover have "\<forall>i\<in>set [0..<j + 1]. i + 1 < length Ve" using j by auto
  ultimately show ?thesis unfolding backward_step_def using le by blast
qed

lemma backward_induction_mono:
  assumes le: "list_all2 (\<le>) Ve Va"
    and n: "nat (bt_n bte) < length Ve" "bt_n bta = bt_n bte"
    and p: "0 \<le> bt_p bte" "bt_p bte \<le> 1" and d: "0 \<le> bt_discount bte"
    and eu: "bt_exercise_type bte \<noteq> ''american''"
    and same: "bt_p bta = bt_p bte" "bt_discount bta = bt_discount bte"
  shows "list_all2 (\<le>) (backward_induction bte Ve) (backward_induction bta Va)"
proof -
  have "list_all2 (\<le>) (fold (\<lambda>j V. backward_step bte V j) xs Ve)
          (fold (\<lambda>j V. backward_step bta V j) xs Va)"
    if "\<forall>j\<in>set xs. j + 1 < length Ve" "list_all2 (\<le>) Ve Va" for xs Ve Va
    using that
  proof (induction xs arbitrary: Ve Va)
    case Nil
    then show ?case by simp
  next
    case (Cons j xs)
    have "list_all2 (\<le>) (backward_step bte Ve j) (backward_step bta Va j)"
      using Cons.prems by (intro backward_step_mono p d eu same) auto
    moreover have "\<forall>k\<in>set xs. k + 1 < length (backward_step bte Ve j)"
      using Cons.prems by (simp add: length_backward_step)
    ultimately show ?case using Cons.IH by simp
  qed
  moreover have "\<forall>j\<in>set (rev [0..<nat (bt_n bte)]). j + 1 < length Ve" using n by auto
  ultimately show ?thesis unfolding backward_induction_def n(2) using le by blast
qed

lemma BinomialTree_init_ok:
  "n \<noteq> 0 \<Longrightarrow> \<exists>bt. BinomialTree_init S K T r sigma n q ot et = Inr bt"
  by (simp add: BinomialTree_init_def Let_def)

lemma BinomialTree_init_fields:
  assumes "BinomialTree_init S K T r sigma n q ot et = Inr bt"
  shows "bt_S bt = S" "bt_K bt = K" "bt_n bt = n" "bt_option_type bt = ot"
    "bt_exercise_type bt = et" "n \<noteq> 0"
    "bt_u bt = exp (sigma * sqrt (T / real_of_int n))"
    "bt_d bt = 1 / bt_u bt"
    "bt_p bt = (exp ((r - q) * (T / real_of_int n)) - bt_d bt) / (bt_u bt - bt_d bt)"
    "bt_discount bt = exp (- r * (T / real_of_int n))"
  using assms by (auto simp: BinomialTree_init_def Let_def split: if_splits)

lemma BinomialTree_init_exercise:
  assumes "BinomialTree_init S K T r sigma n q ot et = Inr bt"
  shows "BinomialTree_init S K T r sigma n q ot et' = Inr (bt\<lparr>bt_exercise_type := et'\<rparr>)"
  using assms by (auto simp: BinomialTree_init_def Let_def split: if_splits)

lemma terminal_prices_exercise [simp]:
  "terminal_prices (bt\<lparr>bt_exercise_type := et\<rparr>) = terminal_prices bt"
  by (simp add: terminal_prices_def asset_price_def)

lemma payoff_exercise [simp]: "payoff (bt\<lparr>bt_exercise_type := et\<rparr>) = payoff bt"
  by (simp add: payoff_def fun_eq_iff)

text \<open>
  C3 (as amended). For two lattice models that agree in \<open>S\<close>, \<open>K\<close>, \<open>T\<close>, \<open>r\<close>,
  \<open>sigma\<close>, \<open>n \<ge> 1\<close>, \<open>q\<close> and the option type, and whose risk-neutral probability
  \<open>p\<close> lies in \<open>[0, 1]\<close>, both prices are returned and the American price is at least
  the European price, for calls and for puts.
\<close>

theorem american_ge_european:
  assumes "0 < S" and "0 < K" and "0 < T" and "0 < sigma" and "1 \<le> n"
    and bt: "BinomialTree_init S K T r sigma n q option_type ''european'' = Inr bt"
    and p: "0 \<le> bt_p bt" "bt_p bt \<le> 1"
  shows "\<exists>ve va. lattice_price S K T r sigma n q option_type ''european'' = Inr ve \<and>
           lattice_price S K T r sigma n q option_type ''american'' = Inr va \<and> ve \<le> va"
proof -
  let ?bta = "bt\<lparr>bt_exercise_type := ''american''\<rparr>"
  let ?V = "map (payoff bt) (terminal_prices bt)"
  have n: "bt_n bt = n" and et: "bt_exercise_type bt = ''european''"
    and d: "bt_discount bt = exp (- r * (T / real_of_int n))"
    using BinomialTree_init_fields [OF bt] by auto
  have bta: "BinomialTree_init S K T r sigma n q option_type ''american'' = Inr ?bta"
    using bt by (rule BinomialTree_init_exercise)
  have n0: "0 \<le> bt_n bt" "0 \<le> bt_n ?bta" using n \<open>1 \<le> n\<close> by auto
  have e: "lattice_price S K T r sigma n q option_type ''european''
             = Inr (backward_induction bt ?V ! 0)"
    by (simp add: lattice_price_def bt price_returns [OF n0(1)])
  have a: "lattice_price S K T r sigma n q option_type ''american''
             = Inr (backward_induction ?bta ?V ! 0)"
    using price_returns [OF n0(2)] by (simp add: lattice_price_def bta)
  have len: "length ?V = nat (bt_n bt + 1)" by (simp add: terminal_prices_def)
  have "list_all2 (\<le>) ?V ?V" by (simp add: list_all2_conv_all_nth)
  then have "list_all2 (\<le>) (backward_induction bt ?V) (backward_induction ?bta ?V)"
    using p n0 len by (intro backward_induction_mono) (auto simp: et d)
  moreover have "0 < length (backward_induction bt ?V)"
    using n0 len by (simp add: length_backward_induction)
  ultimately have "backward_induction bt ?V ! 0 \<le> backward_induction ?bta ?V ! 0"
    by (simp add: list_all2_conv_all_nth)
  with e a show ?thesis by blast
qed

lemma upt_3: "[0..<3] = [0, Suc 0, Suc (Suc 0)]"
  by (simp add: upt_rec numeral_3_eq_3)

lemma rev_upt_2: "rev [0..<2] = [Suc 0, 0]"
  by (simp add: upt_rec numeral_2_eq_2)

lemma upt_j1: "[0..<Suc 0 + 1] = [0, Suc 0]"
  by (simp add: upt_rec)

lemma upt_j0: "[0..<0 + 1] = [0]"
  by simp

text \<open>A two-step at-the-money put, computed step by step.\<close>

lemma two_step_put_terminal:
  assumes n: "bt_n bt = 2" and put: "bt_option_type bt \<noteq> ''call''"
    and K: "bt_K bt = bt_S bt" and S: "0 < bt_S bt"
    and u: "1 < bt_u bt" and d: "bt_d bt = 1 / bt_u bt"
  shows "map (payoff bt) (terminal_prices bt) = [0, 0, bt_S bt - bt_S bt * (bt_d bt)\<^sup>2]"
proof -
  have ud: "bt_u bt * bt_d bt = 1" using u d by simp
  have d1: "0 < bt_d bt" "bt_d bt < 1" using u d by simp_all
  then have d2: "(bt_d bt)\<^sup>2 < 1" by (simp add: abs_square_less_1)
  have t: "terminal_prices bt = [bt_S bt * (bt_u bt)\<^sup>2, bt_S bt * bt_u bt * bt_d bt,
             bt_S bt * (bt_d bt)\<^sup>2]"
    by (simp add: terminal_prices_def n upt_3 asset_price_def numeral_2_eq_2 nat_diff_distrib')
  have "1 < (bt_u bt)\<^sup>2" using u by (simp add: power2_eq_square less_1_mult)
  then have a: "bt_S bt \<le> bt_S bt * (bt_u bt)\<^sup>2" using S by simp
  have b: "bt_S bt * bt_u bt * bt_d bt = bt_S bt" using ud by (simp add: mult.assoc)
  have c: "bt_S bt * (bt_d bt)\<^sup>2 \<le> bt_S bt" using S d2 by simp
  show ?thesis unfolding t using put a c by (simp add: payoff_def K b max_def)
qed

lemma two_step_put_european:
  assumes n: "bt_n bt = 2" and put: "bt_option_type bt \<noteq> ''call''"
    and K: "bt_K bt = bt_S bt" and S: "0 < bt_S bt"
    and u: "1 < bt_u bt" and d: "bt_d bt = 1 / bt_u bt"
    and eu: "bt_exercise_type bt \<noteq> ''american''"
  shows "price bt = Inr ((bt_discount bt)\<^sup>2 * (1 - bt_p bt)\<^sup>2 *
           (bt_S bt - bt_S bt * (bt_d bt)\<^sup>2))"
proof -
  let ?x = "bt_S bt - bt_S bt * (bt_d bt)\<^sup>2"
  let ?c = "bt_discount bt" and ?p = "bt_p bt"
  have s1: "backward_step bt [0, 0, ?x] (Suc 0) = [0, ?c * ((1 - ?p) * ?x), ?x]"
    using eu by (simp add: backward_step_def upt_j1 node_update_def Let_def)
  have s0: "backward_step bt [0, ?c * ((1 - ?p) * ?x), ?x] 0 =
              [?c * ((1 - ?p) * (?c * ((1 - ?p) * ?x))), ?c * ((1 - ?p) * ?x), ?x]"
    using eu by (simp add: backward_step_def upt_j0 node_update_def Let_def)
  have "backward_induction bt (map (payoff bt) (terminal_prices bt)) ! 0 =
          (bt_discount bt)\<^sup>2 * (1 - bt_p bt)\<^sup>2 * (bt_S bt - bt_S bt * (bt_d bt)\<^sup>2)"
    unfolding two_step_put_terminal [OF n put K S u d]
    by (simp add: backward_induction_def n rev_upt_2 s1 s0) (simp add: power2_eq_square)
  then show ?thesis using price_returns [of bt] n by simp
qed

lemma two_step_put_american:
  assumes n: "bt_n bt = 2" and put: "bt_option_type bt \<noteq> ''call''"
    and K: "bt_K bt = bt_S bt" and S: "0 < bt_S bt"
    and u: "1 < bt_u bt" and d: "bt_d bt = 1 / bt_u bt"
    and am: "bt_exercise_type bt = ''american''"
    and p: "1 < bt_p bt" and disc: "0 < bt_discount bt"
  shows "price bt = Inr 0"
proof -
  let ?S = "bt_S bt" and ?d = "bt_d bt" and ?u = "bt_u bt"
  let ?c = "bt_discount bt" and ?p = "bt_p bt"
  have d1: "0 < ?d" "?d < 1" using u d by simp_all
  then have d2: "?d\<^sup>2 < 1" by (simp add: abs_square_less_1)
  have x2: "0 < ?S - ?S * ?d\<^sup>2" using S d2 by simp
  have x1: "0 < ?S - ?S * ?d" using S d1 by simp
  have su: "?S \<le> ?S * ?u" using S u by simp
  have neg1: "?c * ((1 - ?p) * (?S - ?S * ?d\<^sup>2)) < 0"
    using p disc x2 by (simp add: mult_pos_neg mult_neg_pos)
  have neg2: "?c * ((1 - ?p) * (?S - ?S * ?d)) < 0"
    using p disc x1 by (simp add: mult_pos_neg mult_neg_pos)
  have s1: "backward_step bt [0, 0, ?S - ?S * ?d\<^sup>2] (Suc 0) = [0, ?S - ?S * ?d, ?S - ?S * ?d\<^sup>2]"
    using put su x1 neg1
    by (simp add: backward_step_def upt_j1 node_update_def Let_def am payoff_def K
        asset_price_def max_def)
  have s0: "backward_step bt [0, ?S - ?S * ?d, ?S - ?S * ?d\<^sup>2] 0 = [0, ?S - ?S * ?d, ?S - ?S * ?d\<^sup>2]"
    using put neg2
    by (simp add: backward_step_def upt_j0 node_update_def Let_def am payoff_def K
        asset_price_def max_def)
  have "backward_induction bt (map (payoff bt) (terminal_prices bt)) ! 0 = 0"
    unfolding two_step_put_terminal [OF n put K S u d]
    by (simp add: backward_induction_def n rev_upt_2 s1 s0)
  then show ?thesis using price_returns [of bt] n by simp
qed

lemma lattice_price_returns:
  assumes "1 \<le> n"
  shows "\<exists>bt. BinomialTree_init S K T r sigma n q ot et = Inr bt \<and>
           lattice_price S K T r sigma n q ot et =
             Inr (backward_induction bt (map (payoff bt) (terminal_prices bt)) ! 0)"
proof -
  from assms have "n \<noteq> 0" by simp
  then obtain bt where bt: "BinomialTree_init S K T r sigma n q ot et = Inr bt"
    using BinomialTree_init_ok by blast
  then have "bt_n bt = n" by (rule BinomialTree_init_fields)
  with assms have "0 \<le> bt_n bt" by simp
  then show ?thesis using bt by (simp add: lattice_price_def price_returns)
qed

text \<open>A low-volatility model: \<open>sigma = 1%\<close>, \<open>r = 5%\<close>, two steps over one year.\<close>

lemma low_vol_model:
  assumes bt: "BinomialTree_init 100 100 1 (1 / 20) (1 / 100) 2 0 ot et = Inr bt"
  shows "1 < bt_u bt" and "1 < bt_p bt" and "0 < bt_discount bt"
proof -
  note f = BinomialTree_init_fields [OF bt]
  have s: "0 < sqrt (1 / 2 :: real)" "sqrt (1 / 2 :: real) \<le> 1" by simp_all
  have u: "bt_u bt = exp (sqrt (1 / 2) / 100)" using f(7) by simp
  show u1: "1 < bt_u bt" unfolding u using s by simp
  have d: "bt_d bt = 1 / bt_u bt" by (rule f(8))
  have "bt_d bt < 1" using u1 d by simp
  then have d1: "bt_d bt < bt_u bt" using u1 by simp
  have "sqrt (1 / 2 :: real) / 100 < 1 / 40" using s(2) by linarith
  then have "bt_u bt < exp (1 / 40)" unfolding u by simp
  then have "bt_u bt - bt_d bt < exp (1 / 40) - bt_d bt" by simp
  moreover have "bt_p bt = (exp (1 / 40) - bt_d bt) / (bt_u bt - bt_d bt)"
    using f(9) by simp
  ultimately show "1 < bt_p bt" using d1 by simp
  show "0 < bt_discount bt" using f(10) by simp
qed

text \<open>
  Without the bound on \<open>p\<close> the order fails: at \<open>sigma = 1%\<close>, \<open>r = 5%\<close>, two steps over
  one year (\<open>p > 1\<close>) the American at-the-money put is priced \<open>0\<close>, the European one
  above \<open>0\<close>.
\<close>

theorem american_below_european_counterexample:
  "lattice_price 100 100 1 (1 / 20) (1 / 100) 2 0 ''put'' ''american'' = Inr 0 \<and>
   \<not> isl (lattice_price 100 100 1 (1 / 20) (1 / 100) 2 0 ''put'' ''european'') \<and>
   0 < projr (lattice_price 100 100 1 (1 / 20) (1 / 100) 2 0 ''put'' ''european'')"
proof -
  obtain ba where ba: "BinomialTree_init 100 100 1 (1 / 20) (1 / 100) 2 0 ''put'' ''american'' = Inr ba"
    using BinomialTree_init_ok [of 2] by (metis zero_neq_numeral)
  obtain be where be: "BinomialTree_init 100 100 1 (1 / 20) (1 / 100) 2 0 ''put'' ''european'' = Inr be"
    using BinomialTree_init_ok [of 2] by (metis zero_neq_numeral)
  note fa = BinomialTree_init_fields [OF ba] and fe = BinomialTree_init_fields [OF be]
  note ma = low_vol_model [OF ba] and me = low_vol_model [OF be]
  have "price ba = Inr 0"
    using fa ma by (intro two_step_put_american) simp_all
  then have a: "lattice_price 100 100 1 (1 / 20) (1 / 100) 2 0 ''put'' ''american'' = Inr 0"
    by (simp add: lattice_price_def ba)
  have "price be = Inr ((bt_discount be)\<^sup>2 * (1 - bt_p be)\<^sup>2 *
           (bt_S be - bt_S be * (bt_d be)\<^sup>2))"
    using fe me by (intro two_step_put_european) simp_all
  then have e: "lattice_price 100 100 1 (1 / 20) (1 / 100) 2 0 ''put'' ''european'' =
      Inr ((bt_discount be)\<^sup>2 * (1 - bt_p be)\<^sup>2 * (bt_S be - bt_S be * (bt_d be)\<^sup>2))"
    by (simp add: lattice_price_def be)
  have d: "0 < bt_d be" "bt_d be < 1" using me(1) fe(8) by simp_all
  then have "(bt_d be)\<^sup>2 < 1" by (simp add: abs_square_less_1)
  then have "0 < bt_S be - bt_S be * (bt_d be)\<^sup>2" using fe(1) by simp
  with me have "0 < (bt_discount be)\<^sup>2 * (1 - bt_p be)\<^sup>2 *
           (bt_S be - bt_S be * (bt_d be)\<^sup>2)"
    by (intro mult_pos_pos) simp_all
  with a e show ?thesis by simp
qed

theorem american_ge_european_witness:
  "(0::real) < 100 \<and> (0::real) < 100 \<and> (0::real) < 1 \<and> (0::real) < 1 / 5 \<and> (1::int) \<le> 1 \<and>
   (\<exists>ve va. lattice_price 100 100 1 (1 / 20) (1 / 5) 1 0 ''put'' ''european'' = Inr ve \<and>
      lattice_price 100 100 1 (1 / 20) (1 / 5) 1 0 ''put'' ''american'' = Inr va \<and> ve \<le> va)"
proof -
  obtain bt where bt: "BinomialTree_init 100 100 1 (1 / 20) (1 / 5) 1 0 ''put'' ''european'' = Inr bt"
    using BinomialTree_init_ok [of 1] by (metis zero_neq_one)
  note f = BinomialTree_init_fields [OF bt]
  have u: "bt_u bt = exp (1 / 5)" using f(7) by simp
  have d: "bt_d bt = exp (- (1 / 5))" using f(8) u by (simp add: exp_minus inverse_eq_divide)
  have lt: "bt_d bt < bt_u bt" unfolding u d by simp
  have p: "bt_p bt = (exp (1 / 20) - bt_d bt) / (bt_u bt - bt_d bt)" using f(9) by simp
  have "bt_d bt \<le> exp (1 / 20)" unfolding d by simp
  then have p0: "0 \<le> bt_p bt" unfolding p using lt by simp
  have "exp (1 / 20 :: real) \<le> bt_u bt" unfolding u by simp
  then have p1: "bt_p bt \<le> 1" unfolding p using lt by simp
  show ?thesis
    using american_ge_european [of 100 100 1 "1 / 5" 1 "1 / 20" 0 "''put''" bt, OF _ _ _ _ _ bt p0 p1]
    by simp
qed

text \<open>
  C6 (as amended). The lattice pricer does not validate the risk-neutral probability:
  for every model with \<open>n \<ge> 1\<close>, whether \<open>p\<close> lies in \<open>[0, 1]\<close> or not, the model is
  constructed and \<open>price\<close> returns a number; no error is reported.
\<close>

theorem lattice_price_unchecked:
  assumes "1 \<le> n"
  shows "\<exists>bt v. BinomialTree_init S K T r sigma n q option_type exercise_type = Inr bt \<and>
           lattice_price S K T r sigma n q option_type exercise_type = Inr v"
  using lattice_price_returns [OF assms] by blast

theorem lattice_price_unchecked_witness:
  "(1::int) \<le> 100 \<and>
   (\<exists>bt v. BinomialTree_init 100 100 1 (1 / 20) (1 / 5) 100 0 ''call'' ''european'' = Inr bt \<and>
      lattice_price 100 100 1 (1 / 20) (1 / 5) 100 0 ''call'' ''european'' = Inr v)"
  using lattice_price_unchecked [of 100 100 100 1 "1 / 20" "1 / 5" 0 "''call''" "''european''"]
  by simp

text \<open>
  At \<open>sigma = 1%\<close>, \<open>r = 5%\<close>, ten steps over one year, \<open>p\<close> exceeds \<open>1\<close> and a price is
  returned all the same.
\<close>

theorem inconsistent_model_priced_counterexample:
  "1 < bt_p (projr (BinomialTree_init 100 100 1 (1 / 20) (1 / 100) 10 0 ''call'' ''european'')) \<and>
   \<not> isl (lattice_price 100 100 1 (1 / 20) (1 / 100) 10 0 ''call'' ''european'')"
proof -
  obtain bt where bt: "BinomialTree_init 100 100 1 (1 / 20) (1 / 100) 10 0 ''call'' ''european'' = Inr bt"
    and v: "\<not> isl (lattice_price 100 100 1 (1 / 20) (1 / 100) 10 0 ''call'' ''european'')"
    using lattice_price_returns [of 10 100 100 1 "1 / 20" "1 / 100" 0 "''call''" "''european''"]
    by auto
  note f = BinomialTree_init_fields [OF bt]
  have "sqrt (1 / 10 :: real) < 1 / 2"
    by (rule real_less_lsqrt) (simp_all add: power2_eq_square)
  then have s: "sqrt (1 / 10 :: real) / 100 < 1 / 200" by linarith
  have s0: "0 < sqrt (1 / 10 :: real)" by simp
  have u: "bt_u bt = exp (sqrt (1 / 10) / 100)" using f(7) by simp
  have u1: "1 < bt_u bt" unfolding u using s0 by simp
  then have "bt_d bt < 1" using f(8) by simp
  then have d1: "bt_d bt < bt_u bt" using u1 by simp
  have "bt_u bt < exp (1 / 200)" unfolding u using s by simp
  then have "bt_u bt - bt_d bt < exp (1 / 200) - bt_d bt" by simp
  moreover have "bt_p bt = (exp (1 / 200) - bt_d bt) / (bt_u bt - bt_d bt)"
    using f(9) by simp
  ultimately have "1 < bt_p bt" using d1 by simp
  then show ?thesis using v by (simp add: bt)
qed

text \<open>
  C7 (as amended). With step count \<open>n = 0\<close> the lattice pricer is not constructed:
  \<open>dt = T / n\<close> raises \<open>ZeroDivisionError\<close>, so no price is returned. The routine
  \<open>price\<close> itself, on a model whose \<open>n\<close> is \<open>0\<close>, performs no backward-induction step
  and returns exactly \<open>max(0, S - K)\<close> for a call, with no indexing error.
\<close>

theorem zero_steps:
  "lattice_price S K T r sigma 0 q ''call'' exercise_type = Inl ZeroDivisionError \<and>
   (bt_n bt = 0 \<and> bt_option_type bt = ''call'' \<longrightarrow>
      backward_induction bt V = V \<and> price bt = Inr (max 0 (bt_S bt - bt_K bt)))"
proof -
  have "lattice_price S K T r sigma 0 q ''call'' exercise_type = Inl ZeroDivisionError"
    by (simp add: lattice_price_def BinomialTree_init_def)
  moreover have "backward_induction bt V = V" if "bt_n bt = 0" for V
    using that by (simp add: backward_induction_def)
  moreover have "price bt = Inr (max 0 (bt_S bt - bt_K bt))"
    if "bt_n bt = 0" "bt_option_type bt = ''call''"
    using that
    by (simp add: price_def terminal_prices_def backward_induction_def asset_price_def payoff_def)
  ultimately show ?thesis by blast
qed

theorem zero_steps_witness:
  "lattice_price 100 90 1 (1 / 20) (1 / 5) 0 0 ''call'' ''european'' = Inl ZeroDivisionError \<and>
   backward_induction
     \<lparr>bt_S = 100, bt_K = 90, bt_T = 1, bt_r = 1 / 20, bt_sigma = 1 / 5, bt_n = 0, bt_q = 0,
      bt_option_type = ''call'', bt_exercise_type = ''european'',
      bt_dt = 1, bt_u = 2, bt_d = 1 / 2, bt_p = 1 / 2, bt_discount = 1\<rparr> [10] = [10] \<and>
   price
     \<lparr>bt_S = 100, bt_K = 90, bt_T = 1, bt_r = 1 / 20, bt_sigma = 1 / 5, bt_n = 0, bt_q = 0,
      bt_option_type = ''call'', bt_exercise_type = ''european'',
      bt_dt = 1, bt_u = 2, bt_d = 1 / 2, bt_p = 1 / 2, bt_discount = 1\<rparr> = Inr 10"
  using zero_steps [of 100 90 1 "1 / 20" "1 / 5" 0 "''european''"
      "\<lparr>bt_S = 100, bt_K = 90, bt_T = 1, bt_r = 1 / 20, bt_sigma = 1 / 5, bt_n = 0, bt_q = 0,
      bt_option_type = ''call'', bt_exercise_type = ''european'',
      bt_dt = 1, bt_u = 2, bt_d = 1 / 2, bt_p = 1 / 2, bt_discount = 1\<rparr>" "[10]"]
  by simp

text \<open>The claim as stated fails at \<open>S = 100\<close>, \<open>K = 90\<close>: an error, not the payoff \<open>10\<close>.\<close>

theorem zero_steps_counterexample:
  "lattice_price 100 90 1 (1 / 20) (1 / 5) 0 0 ''call'' ''european'' = Inl ZeroDivisionError \<and>
   lattice_price 100 90 1 (1 / 20) (1 / 5) 0 0 ''call'' ''european'' \<noteq> Inr (max 0 (100 - 90))"
  by (simp add: lattice_price_def BinomialTree_init_def)

section \<open>Properties of the implied-volatility solvers\<close>

subsection \<open>The bracketed solver\<close>

text \<open>The price the solvers compare with the market price, as a function of \<open>sigma\<close>.\<close>

lemma theoretical_price_spec:
  assumes "iv_K iv \<noteq> 0"
  shows "\<exists>bs. BlackScholes_init (iv_S iv) (iv_K iv) (iv_T iv) (iv_r iv) sigma (iv_q iv) = Inr bs \<and>
           theoretical_price iv bs =
             (if iv_option_type iv = ''call''
              then spec_call (iv_S iv) (iv_K iv) (iv_T iv) (iv_r iv) sigma (iv_q iv)
              else spec_put (iv_S iv) (iv_K iv) (iv_T iv) (iv_r iv) sigma (iv_q iv))"
proof -
  obtain bs where bs: "BlackScholes_init (iv_S iv) (iv_K iv) (iv_T iv) (iv_r iv) sigma (iv_q iv) = Inr bs"
    using BlackScholes_init_ok [OF assms] by blast
  note d = BlackScholes_init_d1 [OF assms bs] and f = BlackScholes_init_fields [OF bs]
  have "call_price bs = spec_call (iv_S iv) (iv_K iv) (iv_T iv) (iv_r iv) sigma (iv_q iv)"
    by (simp add: call_price_def spec_call_def d f)
  moreover have "put_price bs = spec_put (iv_S iv) (iv_K iv) (iv_T iv) (iv_r iv) sigma (iv_q iv)"
    by (simp add: put_price_def spec_put_def d f)
  ultimately show ?thesis using bs by (simp add: theoretical_price_def)
qed

lemma calculate_iv_unattained:
  assumes "0 < iv_S iv" and "0 < iv_K iv" and "0 < iv_T iv"
    and out: "\<forall>sigma bs. 1 / 1000 \<le> sigma \<and> sigma \<le> 5 \<and>
       BlackScholes_init (iv_S iv) (iv_K iv) (iv_T iv) (iv_r iv) sigma (iv_q iv) = Inr bs \<longrightarrow>
       theoretical_price iv bs \<noteq> iv_market_price iv"
  shows "calculate_iv solve iv = Inr None"
proof -
  let ?g = "\<lambda>sigma. if iv_option_type iv = ''call''
              then spec_call (iv_S iv) (iv_K iv) (iv_T iv) (iv_r iv) sigma (iv_q iv)
              else spec_put (iv_S iv) (iv_K iv) (iv_T iv) (iv_r iv) sigma (iv_q iv)"
  let ?m = "iv_market_price iv"
  have K: "iv_K iv \<noteq> 0" using assms by simp
  have obj: "objective iv sigma = Inr (?g sigma - ?m)" for sigma
    using theoretical_price_spec [OF K, of sigma] by (auto simp: objective_def)
  have ne: "?g sigma \<noteq> ?m" if "1 / 1000 \<le> sigma" "sigma \<le> 5" for sigma
    using theoretical_price_spec [OF K, of sigma] out that by metis
  have cont: "continuous_on {1 / 1000 .. 5} ?g"
    using \<open>0 < iv_T iv\<close>
    by (cases "iv_option_type iv = ''call''")
      (auto intro!: continuous_on_spec_call continuous_on_spec_put)
  have a: "?g (1 / 1000) \<noteq> ?m" and b: "?g 5 \<noteq> ?m" by (rule ne; simp)+
  have same: "(?g (1 / 1000) - ?m < 0) = (?g 5 - ?m < 0)"
  proof (rule ccontr)
    assume "(?g (1 / 1000) - ?m < 0) \<noteq> (?g 5 - ?m < 0)"
    with a b consider "?g (1 / 1000) \<le> ?m \<and> ?m \<le> ?g 5" | "?g 5 \<le> ?m \<and> ?m \<le> ?g (1 / 1000)"
      by linarith
    then have "\<exists>x. 1 / 1000 \<le> x \<and> x \<le> 5 \<and> ?g x = ?m"
    proof cases
      case 1
      then show ?thesis using cont by (intro IVT') simp_all
    next
      case 2
      then show ?thesis using cont by (intro IVT2') simp_all
    qed
    then show False using ne by blast
  qed
  have "brentq solve (objective iv) (1 / 1000) 5 = Inl ValueError"
    using a b same by (simp add: brentq_def obj)
  then show ?thesis by (simp add: calculate_iv_def)
qed

text \<open>
  C8. For a query with positive \<open>S\<close>, \<open>K\<close>, \<open>T\<close> whose market price is not the price at any
  volatility of the bracket \<open>[0.001, 5.0]\<close>, \<open>calculate_iv\<close> returns \<open>None\<close>: no
  volatility and no exception, whatever the iteration of the root finder would do.
\<close>

theorem calculate_iv_no_solution:
  assumes "0 < iv_S iv" and "0 < iv_K iv" and "0 < iv_T iv"
    and "\<forall>sigma bs. 1 / 1000 \<le> sigma \<and> sigma \<le> 5 \<and>
       BlackScholes_init (iv_S iv) (iv_K iv) (iv_T iv) (iv_r iv) sigma (iv_q iv) = Inr bs \<longrightarrow>
       theoretical_price iv bs \<noteq> iv_market_price iv"
  shows "calculate_iv solve iv = Inr None"
  using assms by (rule calculate_iv_unattained)

theorem calculate_iv_no_solution_witness:
  "calculate_iv (\<lambda>f a b. Inl RuntimeError)
     \<lparr>iv_S = 100, iv_K = 100, iv_T = 1, iv_r = 1 / 20, iv_market_price = 1000,
      iv_option_type = ''call'', iv_q = 0\<rparr> = Inr None"
proof -
  let ?iv = "\<lparr>iv_S = 100, iv_K = 100, iv_T = 1, iv_r = 1 / 20, iv_market_price = 1000,
       iv_option_type = ''call'', iv_q = 0\<rparr>"
  have out: "theoretical_price ?iv bs \<noteq> iv_market_price ?iv"
    if bs: "BlackScholes_init (iv_S ?iv) (iv_K ?iv) (iv_T ?iv) (iv_r ?iv) sigma (iv_q ?iv) = Inr bs"
    for sigma bs
  proof -
    note f = BlackScholes_init_fields [OF bs]
    have "call_price bs \<le> 100"
      using call_price_upper [of bs] f by simp
    then show ?thesis by (simp add: theoretical_price_def)
  qed
  have h: "0 < iv_S ?iv" "0 < iv_K ?iv" "0 < iv_T ?iv" by simp_all
  show ?thesis
    using calculate_iv_no_solution [OF h, of "\<lambda>f a b. Inl RuntimeError"] out by blast
qed

text \<open>
  A market price below the intrinsic value need not be outside the range of prices of
  the bracket. For a put with \<open>S = 50\<close>, \<open>K = 100\<close>, \<open>T = 1\<close>, \<open>r = 0.05\<close> the price at
  \<open>sigma = 0.001\<close> is close to \<open>100 e^(-0.05) - 50\<close>, which is about \<open>45.12\<close> and so
  below the intrinsic value \<open>50\<close>, and the price at \<open>sigma = 5\<close> is above \<open>71\<close>.
\<close>

lemma ln_half_bounds: "- 1 \<le> ln (1 / 2 :: real) \<and> ln (1 / 2 :: real) \<le> - (1 / 2)"
proof -
  have "ln (2::real) \<le> 2 - 1" by (rule ln_le_minus_one) simp
  moreover have "ln (1 / 2 :: real) \<le> 1 / 2 - 1" by (rule ln_le_minus_one) simp
  moreover have "ln (1 / 2 :: real) = - ln 2" by (simp add: ln_div)
  ultimately show ?thesis by simp
qed

lemma exp_discount_bounds:
  "19 / 20 \<le> exp (- (1 / 20 :: real)) \<and> exp (- (1 / 20 :: real)) \<le> 20 / 21"
proof -
  have "1 + (- (1 / 20 :: real)) \<le> exp (- (1 / 20))" by (rule exp_ge_add_one_self)
  moreover have "1 + (1 / 20 :: real) \<le> exp (1 / 20)" by (rule exp_ge_add_one_self)
  then have "exp (- (1 / 20 :: real)) \<le> 1 / (1 + 1 / 20)"
    unfolding exp_minus inverse_eq_divide by (intro divide_left_mono) simp_all
  ultimately show ?thesis by simp
qed

lemma deep_put_low: "spec_put 50 100 1 (1 / 20) (1 / 1000) 0 < 49"
proof -
  define d1 where "d1 = spec_d1 50 100 1 (1 / 20) (1 / 1000) 0"
  define d2 where "d2 = spec_d2 50 100 1 (1 / 20) (1 / 1000) 0"
  have d1: "d1 = (ln (1 / 2) + (1 / 20 + 1 / 2000000)) * 1000"
    by (simp add: d1_def spec_d1_def power2_eq_square)
  have le: "d1 \<le> - 4" unfolding d1 using ln_half_bounds by simp
  then have pos: "0 < - d1" by simp
  have "4\<^sup>2 \<le> (- d1)\<^sup>2" using le by (intro power_mono) simp_all
  then have sq: "16 \<le> (- d1)\<^sup>2" by simp
  then have "1 / (- d1)\<^sup>2 \<le> 1 / 16" using le by (intro divide_left_mono) simp_all
  then have a: "15 / 16 \<le> norm_cdf (- d1)"
    using norm_cdf_upper_tail [OF pos] by linarith
  have b: "norm_cdf (- d2) \<le> 1" by (rule norm_cdf_le_1)
  have e: "exp (- (1 / 20 :: real)) \<le> 20 / 21" using exp_discount_bounds by simp
  have "exp (- (1 / 20 :: real)) * norm_cdf (- d2) \<le> (20 / 21) * 1"
    using e b norm_cdf_pos [of "- d2"] by (intro mult_mono) simp_all
  then have "100 * exp (- (1 / 20 :: real)) * norm_cdf (- d2) - 50 * norm_cdf (- d1) < 49"
    using a by linarith
  then show ?thesis by (simp add: spec_put_def d1_def d2_def)
qed

lemma deep_put_high: "49 < spec_put 50 100 1 (1 / 20) 5 0"
proof -
  define d1 where "d1 = spec_d1 50 100 1 (1 / 20) 5 0"
  define d2 where "d2 = spec_d2 50 100 1 (1 / 20) 5 0"
  have d1: "d1 = (ln (1 / 2) + (1 / 20 + 25 / 2)) / 5"
    by (simp add: d1_def spec_d1_def)
  have d2: "d2 = d1 - 5" by (simp add: d2_def d1_def spec_d2_def)
  have lo: "231 / 100 \<le> d1" and hi: "d1 \<le> 241 / 100"
    unfolding d1 using ln_half_bounds by simp_all
  have p1: "d1 > 0" using lo by simp
  have n1: "- d1 < 0" using lo by simp
  have "(231 / 100)\<^sup>2 \<le> d1\<^sup>2" using lo by (intro power_mono) simp_all
  then have "1 / d1\<^sup>2 \<le> 1 / (231 / 100)\<^sup>2" using p1 by (intro divide_left_mono) simp_all
  also have "\<dots> \<le> 19 / 100" by (simp add: power2_eq_square)
  finally have a: "norm_cdf (- d1) \<le> 19 / 100"
    using norm_cdf_lower_tail [OF n1] by simp
  have p2: "0 < - d2" and lo2: "259 / 100 \<le> - d2" unfolding d2 using hi by simp_all
  have "(259 / 100)\<^sup>2 \<le> (- d2)\<^sup>2" using lo2 by (intro power_mono) simp_all
  then have "1 / (- d2)\<^sup>2 \<le> 1 / (259 / 100)\<^sup>2" using p2 by (intro divide_left_mono) simp_all
  also have "\<dots> \<le> 15 / 100" by (simp add: power2_eq_square)
  finally have b: "85 / 100 \<le> norm_cdf (- d2)"
    using norm_cdf_upper_tail [OF p2] by linarith
  have e: "19 / 20 \<le> exp (- (1 / 20 :: real))" using exp_discount_bounds by simp
  have "(19 / 20) * (85 / 100) \<le> exp (- (1 / 20 :: real)) * norm_cdf (- d2)"
    using e b by (intro mult_mono) simp_all
  then have "49 < 100 * exp (- (1 / 20 :: real)) * norm_cdf (- d2) - 50 * norm_cdf (- d1)"
    using a by linarith
  then show ?thesis by (simp add: spec_put_def d1_def d2_def)
qed

text \<open>
  So the market price \<open>49\<close> of that put is below the intrinsic value \<open>50\<close> and is the
  price at a volatility of the bracket; the objective changes sign over the bracket,
  \<open>brentq\<close> raises no \<open>ValueError\<close> at its entry and runs its iteration, and
  \<open>calculate_iv\<close> returns the volatility that the iteration finds, not \<open>None\<close>.
\<close>

theorem below_intrinsic_value_counterexample:
  "iv_market_price \<lparr>iv_S = 50, iv_K = 100, iv_T = 1, iv_r = 1 / 20, iv_market_price = 49,
      iv_option_type = ''put'', iv_q = 0\<rparr>
     < spec_intrinsic_value \<lparr>iv_S = 50, iv_K = 100, iv_T = 1, iv_r = 1 / 20,
         iv_market_price = 49, iv_option_type = ''put'', iv_q = 0\<rparr> \<and>
   (\<exists>sigma bs. 1 / 1000 \<le> sigma \<and> sigma \<le> 5 \<and>
      BlackScholes_init 50 100 1 (1 / 20) sigma 0 = Inr bs \<and> put_price bs = 49) \<and>
   (\<forall>solve.
      brentq solve
        (objective \<lparr>iv_S = 50, iv_K = 100, iv_T = 1, iv_r = 1 / 20, iv_market_price = 49,
           iv_option_type = ''put'', iv_q = 0\<rparr>) (1 / 1000) 5 =
      solve
        (objective \<lparr>iv_S = 50, iv_K = 100, iv_T = 1, iv_r = 1 / 20, iv_market_price = 49,
           iv_option_type = ''put'', iv_q = 0\<rparr>) (1 / 1000) 5) \<and>
   calculate_iv (\<lambda>f a b. Inr (2 / 3))
     \<lparr>iv_S = 50, iv_K = 100, iv_T = 1, iv_r = 1 / 20, iv_market_price = 49,
      iv_option_type = ''put'', iv_q = 0\<rparr> = Inr (Some (2 / 3))"
proof -
  let ?iv = "\<lparr>iv_S = 50, iv_K = 100, iv_T = 1, iv_r = 1 / 20, iv_market_price = 49,
      iv_option_type = ''put'', iv_q = 0\<rparr>"
  let ?g = "\<lambda>sigma. spec_put 50 100 1 (1 / 20) sigma 0"
  have K: "iv_K ?iv \<noteq> 0" by simp
  have tp: "\<exists>bs. BlackScholes_init 50 100 1 (1 / 20) sigma 0 = Inr bs \<and> put_price bs = ?g sigma"
    for sigma
    using theoretical_price_spec [OF K, of sigma] by (simp add: theoretical_price_def)
  have obj: "objective ?iv sigma = Inr (?g sigma - 49)" for sigma
    using tp [of sigma] by (auto simp: objective_def theoretical_price_def)
  have 1: "iv_market_price ?iv < spec_intrinsic_value ?iv"
    by (simp add: spec_intrinsic_value_def)
  have cont: "continuous_on {1 / 1000 .. 5} ?g"
    by (intro continuous_on_spec_put) simp_all
  have "\<exists>x. 1 / 1000 \<le> x \<and> x \<le> 5 \<and> ?g x = 49"
    using deep_put_low deep_put_high cont by (intro IVT') simp_all
  then obtain x where x: "1 / 1000 \<le> x" "x \<le> 5" "?g x = 49" by blast
  from tp [of x] x have 2: "\<exists>sigma bs. 1 / 1000 \<le> sigma \<and> sigma \<le> 5 \<and>
      BlackScholes_init 50 100 1 (1 / 20) sigma 0 = Inr bs \<and> put_price bs = 49"
    by metis
  have b: "brentq solve (objective ?iv) (1 / 1000) 5 = solve (objective ?iv) (1 / 1000) 5"
    for solve
    using deep_put_low deep_put_high by (simp add: brentq_def obj)
  then have 3: "\<forall>solve.
      brentq solve (objective ?iv) (1 / 1000) 5 = solve (objective ?iv) (1 / 1000) 5"
    by blast
  have "brentq (\<lambda>f a b. Inr (2 / 3)) (objective ?iv) (1 / 1000) 5 = Inr (2 / 3)"
    unfolding b ..
  then have 4: "calculate_iv (\<lambda>f a b. Inr (2 / 3)) ?iv = Inr (Some (2 / 3))"
    by (simp add: calculate_iv_def)
  from 1 2 3 4 show ?thesis by blast
qed

text \<open>
  The bound that does put a market price out of reach is the payoff on the discounted
  spot and the discounted strike, the limit of the price as the volatility tends to
  \<open>0\<close>: the price at every positive volatility is above it.
\<close>

lemma calculate_iv_below_discounted_payoff:
  assumes "0 < iv_S iv" and "0 < iv_K iv" and "0 < iv_T iv"
    and m: "iv_market_price iv \<le>
       (if iv_option_type iv = ''call''
        then iv_S iv * exp (- (iv_q iv * iv_T iv)) - iv_K iv * exp (- (iv_r iv * iv_T iv))
        else iv_K iv * exp (- (iv_r iv * iv_T iv)) - iv_S iv * exp (- (iv_q iv * iv_T iv)))"
  shows "calculate_iv solve iv = Inr None"
proof -
  have K: "iv_K iv \<noteq> 0" using assms by simp
  have "theoretical_price iv bs \<noteq> iv_market_price iv"
    if s: "1 / 1000 \<le> sigma" and
      bs: "BlackScholes_init (iv_S iv) (iv_K iv) (iv_T iv) (iv_r iv) sigma (iv_q iv) = Inr bs"
    for sigma bs
  proof -
    have pos: "0 < sigma" using s by simp
    have "theoretical_price iv bs =
        (if iv_option_type iv = ''call''
         then spec_call (iv_S iv) (iv_K iv) (iv_T iv) (iv_r iv) sigma (iv_q iv)
         else spec_put (iv_S iv) (iv_K iv) (iv_T iv) (iv_r iv) sigma (iv_q iv))"
      using theoretical_price_spec [OF K, of sigma] bs by auto
    then show ?thesis
      using spec_call_lower [OF assms(1-3) pos, where r = "iv_r iv" and q = "iv_q iv"]
        spec_put_lower [OF assms(1-3) pos, where r = "iv_r iv" and q = "iv_q iv"] m
      by (simp split: if_splits)
  qed
  then show ?thesis by (intro calculate_iv_unattained [OF assms(1-3)]) blast
qed

subsection \<open>The Newton-Raphson solver\<close>

lemma newton_pass_defined:
  "pricer sigma = Inr pv \<Longrightarrow> \<exists>out. newton_pass ops pricer market_price tolerance sigma = Inr out"
  by (cases pv) (simp add: newton_pass_def Let_def)

lemma length_newton_evals:
  "length (newton_evals ops pricer market_price tolerance k sigma) \<le> k"
proof (induction k arbitrary: sigma)
  case 0
  then show ?case by simp
next
  case (Suc k)
  show ?case
  proof (cases "newton_pass ops pricer market_price tolerance sigma")
    case (Inl e)
    then show ?thesis by simp
  next
    case (Inr out)
    then show ?thesis using Suc.IH by (cases out) simp_all
  qed
qed

lemma newton_iterates_nonempty:
  "newton_iterates ops pricer market_price tolerance k sigma \<noteq> []"
  by (cases k) simp_all

text \<open>
  A run in which no pricer evaluation raises returns the last value of \<open>sigma\<close>, and it
  left the loop at that value by \<open>return\<close>, by \<open>break\<close>, or after \<open>k\<close> passes.
\<close>

lemma newton_loop_run:
  assumes "\<forall>s\<in>set (newton_evals ops pricer market_price tolerance k sigma). \<exists>pv. pricer s = Inr pv"
  shows "newton_loop ops pricer market_price tolerance k sigma =
           Inr (last (newton_iterates ops pricer market_price tolerance k sigma)) \<and>
         (newton_pass ops pricer market_price tolerance
              (last (newton_iterates ops pricer market_price tolerance k sigma)) = Inr Return \<or>
          newton_pass ops pricer market_price tolerance
              (last (newton_iterates ops pricer market_price tolerance k sigma)) = Inr Break \<or>
          length (newton_evals ops pricer market_price tolerance k sigma) = k)"
  using assms
proof (induction k arbitrary: sigma)
  case 0
  then show ?case by simp
next
  case (Suc k)
  from Suc.prems have "\<exists>pv. pricer sigma = Inr pv" by simp
  then obtain out where out: "newton_pass ops pricer market_price tolerance sigma = Inr out"
    using newton_pass_defined by metis
  show ?case
  proof (cases out)
    case Return
    then show ?thesis using out by simp
  next
    case Break
    then show ?thesis using out by simp
  next
    case (Continue sigma')
    have "\<forall>s\<in>set (newton_evals ops pricer market_price tolerance k sigma'). \<exists>pv. pricer s = Inr pv"
      using Suc.prems out Continue by simp
    from Suc.IH [OF this] show ?thesis
      using out Continue by (simp add: newton_iterates_nonempty)
  qed
qed

text \<open>
  The loop calls the pricer at the volatilities of \<open>newton_evals\<close> and nowhere else:
  a pricer that agrees with \<open>pricer\<close> there gives the same run.
\<close>

lemma newton_loop_evals_cong:
  assumes "\<forall>s\<in>set (newton_evals ops pricer market_price tolerance k sigma).
             pricer' s = pricer s"
  shows "newton_loop ops pricer' market_price tolerance k sigma =
           newton_loop ops pricer market_price tolerance k sigma \<and>
         newton_evals ops pricer' market_price tolerance k sigma =
           newton_evals ops pricer market_price tolerance k sigma"
  using assms
proof (induction k arbitrary: sigma)
  case 0
  then show ?case by simp
next
  case (Suc k)
  from Suc.prems have "pricer' sigma = pricer sigma" by simp
  then have p: "newton_pass ops pricer' market_price tolerance sigma =
      newton_pass ops pricer market_price tolerance sigma"
    by (simp add: newton_pass_def)
  show ?case
  proof (cases "newton_pass ops pricer market_price tolerance sigma")
    case (Inl e)
    then show ?thesis using p by simp
  next
    case (Inr out)
    show ?thesis
    proof (cases out)
      case (Continue sigma')
      have "\<forall>s\<in>set (newton_evals ops pricer market_price tolerance k sigma').
          pricer' s = pricer s"
        using Suc.prems Inr Continue by simp
      from Suc.IH [OF this] show ?thesis using p Inr Continue by simp
    qed (use p Inr in simp_all)
  qed
qed

text \<open>An exception of the pricer evaluation propagates.\<close>

lemma vega_newton_raises:
  assumes "pricer sigma = Inl e"
  shows "vega_newton ops pricer market_price sigma (int (Suc k)) tolerance = Inl e"
proof -
  have n: "nat (int (Suc k)) = Suc k" by (rule nat_int)
  show ?thesis
    unfolding vega_newton_def n using assms by (simp add: newton_pass_def)
qed

text \<open>The exit \<open>vega == 0\<close> is taken wherever the float vega is zero.\<close>

lemma vega_newton_zero_vega_exit:
  assumes "pricer sigma = Inr (price_sigma, bs_vega)"
    and "\<not> fl_less ops (fl_abs ops (fl_sub ops price_sigma market_price)) tolerance"
    and "fl_eq ops (fl_mul ops bs_vega (fl_lit ops 100)) (fl_lit ops 0)"
  shows "vega_newton ops pricer market_price sigma (int (Suc k)) tolerance = Inr sigma"
proof -
  have n: "nat (int (Suc k)) = Suc k" by (rule nat_int)
  show ?thesis
    unfolding vega_newton_def n using assms by (simp add: newton_pass_def Let_def)
qed

text \<open>
  The guard \<open>if sigma <= 0: sigma = 0.001\<close>, under the comment \<open>Keep sigma positive\<close>.
  What it gives on floats: every volatility evaluated after the first is the floor, or
  a float for which the test \<open>sigma <= 0\<close> is \<open>False\<close>. In exact arithmetic that is
  positivity. On floats it is not, since the test is \<open>False\<close> of \<open>nan\<close> too: once an
  update is \<open>nan\<close>, the pricer is evaluated at \<open>nan\<close> in every pass that follows.
\<close>

lemma keep_positive_guard:
  "keep_positive ops x = fl_lit ops 0.001 \<or> \<not> fl_le ops (keep_positive ops x) (fl_lit ops 0)"
  by (simp add: keep_positive_def)

lemma newton_pass_guard:
  "newton_pass ops pricer market_price tolerance sigma = Inr (Continue sigma') \<Longrightarrow>
     sigma' = fl_lit ops 0.001 \<or> \<not> fl_le ops sigma' (fl_lit ops 0)"
  using keep_positive_guard [of ops]
  by (auto simp: newton_pass_def Let_def split: sum.splits prod.splits if_splits)

lemma newton_evals_guard:
  "s \<in> set (tl (newton_evals ops pricer market_price tolerance k sigma)) \<Longrightarrow>
     s = fl_lit ops 0.001 \<or> \<not> fl_le ops s (fl_lit ops 0)"
proof (induction k arbitrary: sigma)
  case 0
  then show ?case by simp
next
  case (Suc k)
  show ?case
  proof (cases "newton_pass ops pricer market_price tolerance sigma")
    case (Inl e)
    then show ?thesis using Suc.prems by simp
  next
    case (Inr out)
    show ?thesis
    proof (cases out)
      case (Continue sigma')
      with Inr Suc.prems
      have s: "s \<in> set (newton_evals ops pricer market_price tolerance k sigma')" by simp
      show ?thesis
      proof (cases k)
        case 0
        then show ?thesis using s by simp
      next
        case (Suc j)
        with s have "s = sigma' \<or>
            s \<in> set (tl (newton_evals ops pricer market_price tolerance k sigma'))" by auto
        then show ?thesis
          using newton_pass_guard [of ops pricer market_price tolerance sigma sigma']
            Inr Continue Suc.IH [of sigma'] by blast
      qed
    qed (use Inr Suc.prems in simp_all)
  qed
qed

lemma keep_positive_unordered:
  "\<not> fl_le ops x (fl_lit ops 0) \<Longrightarrow> keep_positive ops x = x"
  by (simp add: keep_positive_def)

lemma exact_evals_positive:
  "0 < sigma \<Longrightarrow> s \<in> set (newton_evals exact_ops pricer market_price tolerance k sigma) \<Longrightarrow>
     0 < s"
proof (induction k arbitrary: sigma)
  case 0
  then show ?case by simp
next
  case (Suc k)
  show ?case
  proof (cases "s = sigma")
    case True
    then show ?thesis using Suc.prems by simp
  next
    case False
    show ?thesis
    proof (cases "newton_pass exact_ops pricer market_price tolerance sigma")
      case (Inl e)
      then show ?thesis using Suc.prems False by simp
    next
      case (Inr out)
      show ?thesis
      proof (cases out)
        case (Continue sigma')
        with Inr Suc.prems False
        have s: "s \<in> set (newton_evals exact_ops pricer market_price tolerance k sigma')"
          by simp
        have "0 < sigma'"
          using newton_pass_guard [of exact_ops pricer market_price tolerance sigma sigma']
            Inr Continue by (auto simp: exact_ops_def)
        then show ?thesis using Suc.IH s by blast
      qed (use Inr Suc.prems False in simp_all)
    qed
  qed
qed

lemma exact_pricer_defined:
  "iv_K iv \<noteq> 0 \<Longrightarrow> \<exists>pv. exact_pricer iv sigma = Inr pv"
  by (simp add: exact_pricer_def BlackScholes_init_def Let_def)

lemma exact_pricer_value:
  assumes "iv_K iv \<noteq> 0"
  shows "\<exists>v. exact_pricer iv sigma =
           Inr (if iv_option_type iv = ''call''
                then spec_call (iv_S iv) (iv_K iv) (iv_T iv) (iv_r iv) sigma (iv_q iv)
                else spec_put (iv_S iv) (iv_K iv) (iv_T iv) (iv_r iv) sigma (iv_q iv), v)"
  using theoretical_price_spec [OF assms, of sigma] by (auto simp: exact_pricer_def)

text \<open>
  C10. Whenever the pricer evaluations of a run raise nothing, \<open>vega_newton\<close> raises
  nothing and returns a float, the last value of the variable \<open>sigma\<close>, after at most
  \<open>max_iterations\<close> passes; the loop was left at that value on meeting the tolerance,
  on a zero vega, or on exhausting the budget, and the result says nothing of which.
  This holds whatever the float arithmetic does.
\<close>

theorem vega_newton_returns_iterate:
  assumes "\<forall>s\<in>set (newton_evals ops pricer market_price tolerance (nat max_iterations)
                     sigma_initial). \<exists>pv. pricer s = Inr pv"
  shows "\<exists>sigma. vega_newton ops pricer market_price sigma_initial max_iterations tolerance =
                    Inr sigma \<and>
           sigma = last (newton_iterates ops pricer market_price tolerance
                           (nat max_iterations) sigma_initial) \<and>
           length (newton_evals ops pricer market_price tolerance (nat max_iterations)
                     sigma_initial) \<le> nat max_iterations \<and>
           (newton_pass ops pricer market_price tolerance sigma = Inr Return \<or>
            newton_pass ops pricer market_price tolerance sigma = Inr Break \<or>
            length (newton_evals ops pricer market_price tolerance (nat max_iterations)
                      sigma_initial) = nat max_iterations)"
  using newton_loop_run [OF assms] length_newton_evals [of ops pricer market_price tolerance]
  by (simp add: vega_newton_def)

text \<open>
  Three runs in exact arithmetic that return the same number \<open>0.2\<close>: one whose market
  price is the model price at \<open>0.2\<close> and which meets the tolerance in its first pass;
  one whose pricer evaluation gives a vega that has underflowed to zero, and which
  breaks in its first pass; and one with no budget, whose market price \<open>1000\<close> is the
  price at no volatility.
\<close>

theorem vega_newton_returns_iterate_witness:
  "vega_newton exact_ops
     (exact_pricer \<lparr>iv_S = 100, iv_K = 100, iv_T = 1, iv_r = 1 / 20,
        iv_market_price = spec_call 100 100 1 (1 / 20) (1 / 5) 0,
        iv_option_type = ''call'', iv_q = 0\<rparr>)
     (spec_call 100 100 1 (1 / 20) (1 / 5) 0) (1 / 5) 100 (1 / 1000000) = Inr (1 / 5) \<and>
   newton_pass exact_ops
     (exact_pricer \<lparr>iv_S = 100, iv_K = 100, iv_T = 1, iv_r = 1 / 20,
        iv_market_price = spec_call 100 100 1 (1 / 20) (1 / 5) 0,
        iv_option_type = ''call'', iv_q = 0\<rparr>)
     (spec_call 100 100 1 (1 / 20) (1 / 5) 0) (1 / 1000000) (1 / 5) = Inr Return \<and>
   vega_newton exact_ops (\<lambda>sigma. Inr (5, 0)) 10 (1 / 5) 100 (1 / 1000000) = Inr (1 / 5) \<and>
   newton_pass exact_ops (\<lambda>sigma. Inr (5, 0)) 10 (1 / 1000000) (1 / 5) = Inr Break \<and>
   vega_newton exact_ops
     (exact_pricer \<lparr>iv_S = 100, iv_K = 100, iv_T = 1, iv_r = 1 / 20,
        iv_market_price = 1000, iv_option_type = ''call'', iv_q = 0\<rparr>)
     1000 (1 / 5) 0 (1 / 1000000) = Inr (1 / 5)"
proof -
  let ?m = "spec_call 100 100 1 (1 / 20) (1 / 5) 0"
  let ?ivA = "\<lparr>iv_S = 100, iv_K = 100, iv_T = 1, iv_r = 1 / 20, iv_market_price = ?m,
        iv_option_type = ''call'', iv_q = 0\<rparr>"
  let ?ivB = "\<lparr>iv_S = 100, iv_K = 100, iv_T = 1, iv_r = 1 / 20, iv_market_price = 1000,
        iv_option_type = ''call'', iv_q = 0\<rparr>"
  let ?u = "\<lambda>sigma::real. Inr (5::real, 0::real) :: py_error + real \<times> real"
  have KA: "iv_K ?ivA \<noteq> 0" and KB: "iv_K ?ivB \<noteq> 0" by simp_all
  have n: "nat 100 = Suc 99" by simp
  obtain v where v: "exact_pricer ?ivA (1 / 5) = Inr (?m, v)"
    using exact_pricer_value [OF KA, of "1 / 5"] by auto
  have pass: "newton_pass exact_ops (exact_pricer ?ivA) ?m (1 / 1000000) (1 / 5) = Inr Return"
    by (simp add: newton_pass_def v exact_ops_def)
  have itA: "newton_iterates exact_ops (exact_pricer ?ivA) ?m (1 / 1000000) (nat 100) (1 / 5)
      = [1 / 5]"
    unfolding n newton_iterates.simps pass by simp
  have hA: "\<forall>s\<in>set (newton_evals exact_ops (exact_pricer ?ivA) ?m (1 / 1000000) (nat 100) (1 / 5)).
      \<exists>pv. exact_pricer ?ivA s = Inr pv"
    using exact_pricer_defined [OF KA] by blast
  obtain sigma where
    r: "vega_newton exact_ops (exact_pricer ?ivA) ?m (1 / 5) 100 (1 / 1000000) = Inr sigma"
    and l: "sigma = last (newton_iterates exact_ops (exact_pricer ?ivA) ?m (1 / 1000000)
                            (nat 100) (1 / 5))"
    using vega_newton_returns_iterate [OF hA] by blast
  have "sigma = 1 / 5" unfolding l itA by simp
  with r have A:
    "vega_newton exact_ops (exact_pricer ?ivA) ?m (1 / 5) 100 (1 / 1000000) = Inr (1 / 5)"
    by simp
  have passU: "newton_pass exact_ops ?u 10 (1 / 1000000) (1 / 5) = Inr Break"
    by (simp add: newton_pass_def exact_ops_def)
  have itU: "newton_iterates exact_ops ?u 10 (1 / 1000000) (nat 100) (1 / 5) = [1 / 5]"
    unfolding n newton_iterates.simps passU by simp
  have hU: "\<forall>s\<in>set (newton_evals exact_ops ?u 10 (1 / 1000000) (nat 100) (1 / 5)).
      \<exists>pv. ?u s = Inr pv"
    by blast
  obtain sigmaU where
    rU: "vega_newton exact_ops ?u 10 (1 / 5) 100 (1 / 1000000) = Inr sigmaU"
    and lU: "sigmaU = last (newton_iterates exact_ops ?u 10 (1 / 1000000) (nat 100) (1 / 5))"
    using vega_newton_returns_iterate [OF hU] by blast
  have "sigmaU = 1 / 5" unfolding lU itU by simp
  with rU have U: "vega_newton exact_ops ?u 10 (1 / 5) 100 (1 / 1000000) = Inr (1 / 5)"
    by simp
  have hB: "\<forall>s\<in>set (newton_evals exact_ops (exact_pricer ?ivB) 1000 (1 / 1000000) (nat 0) (1 / 5)).
      \<exists>pv. exact_pricer ?ivB s = Inr pv"
    by simp
  obtain sigma' where
    r': "vega_newton exact_ops (exact_pricer ?ivB) 1000 (1 / 5) 0 (1 / 1000000) = Inr sigma'"
    and l': "sigma' = last (newton_iterates exact_ops (exact_pricer ?ivB) 1000 (1 / 1000000)
                             (nat 0) (1 / 5))"
    using vega_newton_returns_iterate [OF hB] by blast
  have "sigma' = 1 / 5" unfolding l' by simp
  with r' have B:
    "vega_newton exact_ops (exact_pricer ?ivB) 1000 (1 / 5) 0 (1 / 1000000) = Inr (1 / 5)"
    by simp
  from A pass U passU B show ?thesis by blast
qed

end
